theory Spec2Isabelle
  imports Complex_Main "HOL-Library.Word" "HOL-Library.Log_Nat"
begin

section \<open>Go's numeric types\<close>

text \<open>
  \<^verbatim>\<open>uint64\<close> is a 64-bit word read unsigned (\<open>+\<close> and \<open>-\<close> wrap, \<open>\<le>\<close>, \<open>max\<close> and
  \<open>min\<close> compare the unsigned values); \<^verbatim>\<open>int64\<close> is a 64-bit word read through \<open>sint\<close>.
\<close>

type_synonym uint64 = "64 word"
type_synonym int64 = "64 word"

text \<open>
  \<^verbatim>\<open>float64\<close>: a finite binary64 value is carried by the rational it denotes, next to
  the two infinities and NaN. The sign of a zero is not recorded: the program never
  divides by a variable and never inspects a sign bit, and \<open>-0.0\<close> compares like \<open>0.0\<close>.
\<close>

datatype float64 = Fin rat | PInf | NInf | NaN

definition pow2 :: "int \<Rightarrow> rat" where
  "pow2 e = (if 0 \<le> e then 2 ^ nat e else 1 / 2 ^ nat (- e))"

text \<open>The binary exponent of a positive rational: \<open>pow2 (ilog2 x) \<le> x < pow2 (ilog2 x + 1)\<close>.\<close>

definition ilog2 :: "rat \<Rightarrow> int" where
  "ilog2 x = (let k = bitlen (fst (quotient_of x)) - bitlen (snd (quotient_of x))
              in if pow2 k \<le> x then k else k - 1)"

text \<open>Rounding to the nearest integer, ties to the even one.\<close>

definition round_half_even :: "rat \<Rightarrow> int" where
  "round_half_even y =
     (let f = \<lfloor>y\<rfloor>; r = y - of_int f
      in if r < 1 / 2 then f
         else if 1 / 2 < r then f + 1
         else if even f then f else f + 1)"

text \<open>
  IEEE 754 binary64 rounding (round to nearest, ties to even) of an exact result:
  a significand of 53 bits, the exponent of the last place at least \<open>-1074\<close>
  (subnormals), and overflow to an infinity when the rounded value reaches \<open>2^1024\<close>.
\<close>

definition f64_round :: "rat \<Rightarrow> float64" where
  "f64_round x =
     (if x = 0 then Fin 0
      else let a = \<bar>x\<bar>;
               e = max (ilog2 a - 52) (- 1074);
               v = of_int (round_half_even (a / pow2 e)) * pow2 e
           in if pow2 1024 \<le> v then (if 0 < x then PInf else NInf)
              else Fin (if 0 < x then v else - v))"

text \<open>\<^verbatim>\<open>x < y\<close> on float64: false as soon as one side is NaN.\<close>

fun f64_lt :: "float64 \<Rightarrow> float64 \<Rightarrow> bool" where
  "f64_lt NaN y = False"
| "f64_lt x NaN = False"
| "f64_lt (Fin a) (Fin b) = (a < b)"
| "f64_lt x NInf = False"
| "f64_lt NInf y = True"
| "f64_lt PInf y = False"
| "f64_lt x PInf = True"

text \<open>\<^verbatim>\<open>x * y\<close> on float64.\<close>

fun f64_mul :: "float64 \<Rightarrow> float64 \<Rightarrow> float64" where
  "f64_mul NaN y = NaN"
| "f64_mul x NaN = NaN"
| "f64_mul (Fin a) (Fin b) = f64_round (a * b)"
| "f64_mul (Fin a) y = (if a = 0 then NaN else if (0 < a) = (y = PInf) then PInf else NInf)"
| "f64_mul x (Fin b) = (if b = 0 then NaN else if (0 < b) = (x = PInf) then PInf else NInf)"
| "f64_mul x y = (if x = y then PInf else NInf)"

text \<open>
  \<^verbatim>\<open>x / y\<close> on float64. The program's only divisor is the constant \<^verbatim>\<open>1e9\<close>; a zero
  divisor is read as \<open>+0.0\<close>.
\<close>

fun f64_div :: "float64 \<Rightarrow> float64 \<Rightarrow> float64" where
  "f64_div NaN y = NaN"
| "f64_div x NaN = NaN"
| "f64_div (Fin a) (Fin b) =
     (if b = 0 then (if a = 0 then NaN else if 0 < a then PInf else NInf)
      else f64_round (a / b))"
| "f64_div (Fin a) y = Fin 0"
| "f64_div x (Fin b) = (if (x = PInf) = (0 \<le> b) then PInf else NInf)"
| "f64_div x y = NaN"

text \<open>The conversions \<^verbatim>\<open>float64(u)\<close> of a uint64 and of an int64: the nearest binary64.\<close>

definition f64_of_u64 :: "uint64 \<Rightarrow> float64" where
  "f64_of_u64 w = f64_round (of_int (uint w))"

definition f64_of_i64 :: "int64 \<Rightarrow> float64" where
  "f64_of_i64 w = f64_round (of_int (sint w))"

text \<open>
  The conversion \<^verbatim>\<open>uint64(f)\<close> discards the fraction (truncation towards zero). Where
  uint64 cannot represent the truncated value (a negative one, one from \<open>2^64\<close> on, an
  infinity, NaN) Go's specification leaves the result to the implementation: that result
  is the parameter \<open>unrep\<close>, carried by every operation that converts.
\<close>

definition trunc :: "rat \<Rightarrow> int" where
  "trunc q = (if 0 \<le> q then \<lfloor>q\<rfloor> else - \<lfloor>- q\<rfloor>)"

definition u64_of_f64 :: "(float64 \<Rightarrow> uint64) \<Rightarrow> float64 \<Rightarrow> uint64" where
  "u64_of_f64 unrep f =
     (case f of
        Fin q \<Rightarrow> (if 0 \<le> trunc q \<and> trunc q < 2 ^ 64 then word_of_int (trunc q) else unrep f)
      | _ \<Rightarrow> unrep f)"

section \<open>The limiter\<close>

text \<open>
  \<^verbatim>\<open>type ATLimiter struct { maxRPS, capacity uint64; tokens atomic.Uint64;
  lastRefill atomic.Int64 }\<close>. The operations below are one goroutine's view: each runs
  from start to end on the limiter it is given and returns its result with the limiter
  it leaves. The reading of \<^verbatim>\<open>time.Now().UnixNano()\<close> that an operation takes is its
  argument \<open>now\<close>.
\<close>

record ATLimiter =
  maxRPS :: uint64
  capacity :: uint64
  tokens :: uint64
  lastRefill :: int64

text \<open>The methods of \<^verbatim>\<open>atomic.Uint64\<close> and \<^verbatim>\<open>atomic.Int64\<close> on the two atomic fields.\<close>

definition tokens_Load :: "ATLimiter \<Rightarrow> uint64" where
  "tokens_Load r = tokens r"

definition tokens_Store :: "ATLimiter \<Rightarrow> uint64 \<Rightarrow> ATLimiter" where
  "tokens_Store r v = r\<lparr>tokens := v\<rparr>"

definition tokens_CompareAndSwap :: "ATLimiter \<Rightarrow> uint64 \<Rightarrow> uint64 \<Rightarrow> bool \<times> ATLimiter" where
  "tokens_CompareAndSwap r old new =
     (if tokens r = old then (True, r\<lparr>tokens := new\<rparr>) else (False, r))"

definition lastRefill_Load :: "ATLimiter \<Rightarrow> int64" where
  "lastRefill_Load r = lastRefill r"

definition lastRefill_Store :: "ATLimiter \<Rightarrow> int64 \<Rightarrow> ATLimiter" where
  "lastRefill_Store r v = r\<lparr>lastRefill := v\<rparr>"

definition lastRefill_CompareAndSwap :: "ATLimiter \<Rightarrow> int64 \<Rightarrow> int64 \<Rightarrow> bool \<times> ATLimiter" where
  "lastRefill_CompareAndSwap r old new =
     (if lastRefill r = old then (True, r\<lparr>lastRefill := new\<rparr>) else (False, r))"

text \<open>
  The capacity both \<^verbatim>\<open>NewLimiter\<close> and \<^verbatim>\<open>SetMaxRPS\<close> compute, after the same clamp of the
  factor: \<^verbatim>\<open>max(max(uint64(float64(maxRPS)*capacityFactor), 1), maxRPS)\<close>.
\<close>

definition NewLimiter :: "(float64 \<Rightarrow> uint64) \<Rightarrow> uint64 \<Rightarrow> float64 \<Rightarrow> int64 \<Rightarrow> ATLimiter" where
  "NewLimiter unrep maxRPS' capacityFactor now =
     (let capacityFactor = (if f64_lt capacityFactor (Fin 1) then Fin 1 else capacityFactor);
          capacity' = max (max (u64_of_f64 unrep (f64_mul (f64_of_u64 maxRPS') capacityFactor)) 1) maxRPS';
          l = \<lparr>maxRPS = maxRPS', capacity = capacity', tokens = 0, lastRefill = 0\<rparr>;
          l = tokens_Store l capacity';
          l = lastRefill_Store l now
      in l)"

definition calculateTokenRefill :: "(float64 \<Rightarrow> uint64) \<Rightarrow> ATLimiter \<Rightarrow> int64 \<Rightarrow> ATLimiter" where
  "calculateTokenRefill unrep r now =
     (let previousRefill = lastRefill_Load r;
          elapsed = f64_div (f64_of_i64 (now - previousRefill)) (Fin 1000000000)
      in if f64_lt (Fin 0) elapsed then
           (let (swapped, r) = lastRefill_CompareAndSwap r previousRefill now
            in if swapped then
                 (let newTokens = u64_of_f64 unrep (f64_mul (f64_of_u64 (maxRPS r)) elapsed)
                  in if 0 < newTokens then
                       (let current = tokens_Load r;
                            newTotal = min (current + newTokens) (capacity r)
                        in tokens_Store r newTotal)
                     else r)
               else r)
         else r)"

text \<open>
  The retry loop of \<^verbatim>\<open>Allow\<close>: load, give up at zero, else compare-and-swap to one less
  and go round again when the swap fails. With no other goroutine between the load and
  the swap, the swap finds the value just loaded, so the loop body runs once: that is
  the termination argument. The loop of \<^verbatim>\<open>TryAllow\<close> below is the same with \<open>tokensCount\<close>
  in place of 1.
\<close>

function Allow_loop :: "ATLimiter \<Rightarrow> bool \<times> ATLimiter" where
  "Allow_loop r =
     (let current = tokens_Load r
      in if current = 0 then (False, r)
         else if fst (tokens_CompareAndSwap r current (current - 1))
              then (True, snd (tokens_CompareAndSwap r current (current - 1)))
              else Allow_loop (snd (tokens_CompareAndSwap r current (current - 1))))"
  by pat_completeness auto
termination
  by (relation "{}") (simp_all add: tokens_CompareAndSwap_def tokens_Load_def)

declare Allow_loop.simps [simp del]

definition Allow :: "(float64 \<Rightarrow> uint64) \<Rightarrow> ATLimiter \<Rightarrow> int64 \<Rightarrow> bool \<times> ATLimiter" where
  "Allow unrep r now =
     (if maxRPS r = 0 then (True, r)
      else Allow_loop (calculateTokenRefill unrep r now))"

function TryAllow_loop :: "ATLimiter \<Rightarrow> uint64 \<Rightarrow> bool \<times> ATLimiter" where
  "TryAllow_loop r tokensCount =
     (let current = tokens_Load r
      in if current < tokensCount then (False, r)
         else if fst (tokens_CompareAndSwap r current (current - tokensCount))
              then (True, snd (tokens_CompareAndSwap r current (current - tokensCount)))
              else TryAllow_loop (snd (tokens_CompareAndSwap r current (current - tokensCount))) tokensCount)"
  by pat_completeness auto
termination
  by (relation "{}") (simp_all add: tokens_CompareAndSwap_def tokens_Load_def)

declare TryAllow_loop.simps [simp del]

definition TryAllow :: "(float64 \<Rightarrow> uint64) \<Rightarrow> ATLimiter \<Rightarrow> int64 \<Rightarrow> uint64 \<Rightarrow> bool \<times> ATLimiter" where
  "TryAllow unrep r now tokensCount =
     (if maxRPS r = 0 then (True, r)
      else if tokensCount = 0 then (True, r)
      else if capacity r < tokensCount then (False, r)
      else TryAllow_loop (calculateTokenRefill unrep r now) tokensCount)"

definition Available :: "(float64 \<Rightarrow> uint64) \<Rightarrow> ATLimiter \<Rightarrow> int64 \<Rightarrow> uint64 \<times> ATLimiter" where
  "Available unrep r now =
     (let r = calculateTokenRefill unrep r now in (tokens_Load r, r))"

definition SetMaxRPS :: "(float64 \<Rightarrow> uint64) \<Rightarrow> ATLimiter \<Rightarrow> uint64 \<Rightarrow> float64 \<Rightarrow> ATLimiter" where
  "SetMaxRPS unrep r newMaxRPS newCapacityFactor =
     (let newCapacityFactor = (if f64_lt newCapacityFactor (Fin 1) then Fin 1 else newCapacityFactor);
          newCapacity = max (max (u64_of_f64 unrep (f64_mul (f64_of_u64 newMaxRPS) newCapacityFactor)) 1) newMaxRPS;
          r = r\<lparr>maxRPS := newMaxRPS\<rparr>;
          r = r\<lparr>capacity := newCapacity\<rparr>;
          current = tokens_Load r
      in if newCapacity < current then snd (tokens_CompareAndSwap r current newCapacity)
         else r)"

definition GetMaxRPS :: "ATLimiter \<Rightarrow> uint64" where
  "GetMaxRPS r = maxRPS r"

definition GetCapacity :: "ATLimiter \<Rightarrow> uint64" where
  "GetCapacity r = capacity r"

section \<open>Sequences of calls\<close>

text \<open>
  A caller issues the admission and introspection calls one after the other, each with
  the clock reading it takes; \<open>run\<close> lists every call's result with the limiter it leaves.
\<close>

datatype call = Call_Allow | Call_TryAllow uint64 | Call_Available

datatype reply = Reply_bool bool | Reply_uint64 uint64

fun step :: "(float64 \<Rightarrow> uint64) \<Rightarrow> ATLimiter \<Rightarrow> call \<times> int64 \<Rightarrow> reply \<times> ATLimiter" where
  "step unrep r (Call_Allow, now) = (Reply_bool (fst (Allow unrep r now)), snd (Allow unrep r now))"
| "step unrep r (Call_TryAllow n, now) =
     (Reply_bool (fst (TryAllow unrep r now n)), snd (TryAllow unrep r now n))"
| "step unrep r (Call_Available, now) =
     (Reply_uint64 (fst (Available unrep r now)), snd (Available unrep r now))"

fun run :: "(float64 \<Rightarrow> uint64) \<Rightarrow> ATLimiter \<Rightarrow> (call \<times> int64) list \<Rightarrow> (reply \<times> ATLimiter) list" where
  "run unrep r [] = []"
| "run unrep r (c # cs) = step unrep r c # run unrep (snd (step unrep r c)) cs"

text \<open>The limiter a sequence of calls leaves behind.\<close>

fun final :: "(float64 \<Rightarrow> uint64) \<Rightarrow> ATLimiter \<Rightarrow> (call \<times> int64) list \<Rightarrow> ATLimiter" where
  "final unrep r [] = r"
| "final unrep r (c # cs) = final unrep (snd (step unrep r c)) cs"

section \<open>Memory accesses\<close>

text \<open>
  The accesses to the limiter's four fields that an operation performs, in program
  order, on the path it takes. \<^verbatim>\<open>tokens\<close> and \<^verbatim>\<open>lastRefill\<close> have the types \<^verbatim>\<open>atomic.Uint64\<close>
  and \<^verbatim>\<open>atomic.Int64\<close>, whose methods are the only way to them; \<^verbatim>\<open>maxRPS\<close> and \<^verbatim>\<open>capacity\<close>
  are plain \<^verbatim>\<open>uint64\<close> fields, reached either through \<^verbatim>\<open>atomic.LoadUint64\<close> and
  \<^verbatim>\<open>atomic.StoreUint64\<close> or by an ordinary field expression such as \<^verbatim>\<open>r.capacity\<close>.
\<close>

datatype field = Field_maxRPS | Field_capacity | Field_tokens | Field_lastRefill

datatype access =
  Plain_read field | Plain_write field | Atomic_load field | Atomic_store field | Atomic_cas field

fun access_field :: "access \<Rightarrow> field" where
  "access_field (Plain_read f) = f"
| "access_field (Plain_write f) = f"
| "access_field (Atomic_load f) = f"
| "access_field (Atomic_store f) = f"
| "access_field (Atomic_cas f) = f"

fun is_write :: "access \<Rightarrow> bool" where
  "is_write (Plain_read f) = False"
| "is_write (Plain_write f) = True"
| "is_write (Atomic_load f) = False"
| "is_write (Atomic_store f) = True"
| "is_write (Atomic_cas f) = True"

fun is_atomic :: "access \<Rightarrow> bool" where
  "is_atomic (Plain_read f) = False"
| "is_atomic (Plain_write f) = False"
| "is_atomic (Atomic_load f) = True"
| "is_atomic (Atomic_store f) = True"
| "is_atomic (Atomic_cas f) = True"

text \<open>
  The Go memory model: two accesses of concurrently running goroutines form a data race
  when they touch the same location, one of them writes, and they are not both atomic.
\<close>

definition data_race :: "access \<Rightarrow> access \<Rightarrow> bool" where
  "data_race a b =
     (access_field a = access_field b \<and> (is_write a \<or> is_write b) \<and> \<not> (is_atomic a \<and> is_atomic b))"

definition calculateTokenRefill_accesses :: "(float64 \<Rightarrow> uint64) \<Rightarrow> ATLimiter \<Rightarrow> int64 \<Rightarrow> access list" where
  "calculateTokenRefill_accesses unrep r now =
     Atomic_load Field_lastRefill #
     (let elapsed = f64_div (f64_of_i64 (now - lastRefill r)) (Fin 1000000000)
      in if f64_lt (Fin 0) elapsed then
           Atomic_cas Field_lastRefill # Plain_read Field_maxRPS #
           (if 0 < u64_of_f64 unrep (f64_mul (f64_of_u64 (maxRPS r)) elapsed)
            then [Atomic_load Field_tokens, Plain_read Field_capacity, Atomic_store Field_tokens]
            else [])
         else [])"

definition Allow_accesses :: "(float64 \<Rightarrow> uint64) \<Rightarrow> ATLimiter \<Rightarrow> int64 \<Rightarrow> access list" where
  "Allow_accesses unrep r now =
     Plain_read Field_maxRPS #
     (if maxRPS r = 0 then []
      else calculateTokenRefill_accesses unrep r now @
           Atomic_load Field_tokens #
           (if tokens (calculateTokenRefill unrep r now) = 0 then [] else [Atomic_cas Field_tokens]))"

definition TryAllow_accesses :: "(float64 \<Rightarrow> uint64) \<Rightarrow> ATLimiter \<Rightarrow> int64 \<Rightarrow> uint64 \<Rightarrow> access list" where
  "TryAllow_accesses unrep r now tokensCount =
     Plain_read Field_maxRPS #
     (if maxRPS r = 0 then []
      else if tokensCount = 0 then []
      else Plain_read Field_capacity #
           (if capacity r < tokensCount then []
            else calculateTokenRefill_accesses unrep r now @
                 Atomic_load Field_tokens #
                 (if tokens (calculateTokenRefill unrep r now) < tokensCount then []
                  else [Atomic_cas Field_tokens])))"

definition Available_accesses :: "(float64 \<Rightarrow> uint64) \<Rightarrow> ATLimiter \<Rightarrow> int64 \<Rightarrow> access list" where
  "Available_accesses unrep r now =
     calculateTokenRefill_accesses unrep r now @ [Atomic_load Field_tokens]"

definition SetMaxRPS_accesses :: "(float64 \<Rightarrow> uint64) \<Rightarrow> ATLimiter \<Rightarrow> uint64 \<Rightarrow> float64 \<Rightarrow> access list" where
  "SetMaxRPS_accesses unrep r newMaxRPS newCapacityFactor =
     [Atomic_store Field_maxRPS, Atomic_store Field_capacity, Atomic_load Field_tokens] @
     (if capacity (SetMaxRPS unrep r newMaxRPS newCapacityFactor) < tokens r
      then [Atomic_cas Field_tokens] else [])"

definition GetMaxRPS_accesses :: "access list" where
  "GetMaxRPS_accesses = [Atomic_load Field_maxRPS]"

definition GetCapacity_accesses :: "access list" where
  "GetCapacity_accesses = [Plain_read Field_capacity]"

section \<open>The specification's capacity rule\<close>

text \<open>
  The specification's data model in its own words, read over numbers. The capacity factor
  is a real number, clamped up to 1.0 when it is below 1.0, and the capacity is the
  integer \<open>max(maxRate * capacityFactor, 1, maxRate)\<close>, the product being the exact one
  with its fraction dropped.
\<close>

definition spec_capacity :: "int \<Rightarrow> rat \<Rightarrow> int" where
  "spec_capacity maxRate capacityFactor =
     (let factor = (if capacityFactor < 1 then 1 else capacityFactor)
      in Max {\<lfloor>of_int maxRate * factor\<rfloor>, 1, maxRate})"

section \<open>Binary64 rounding\<close>

subsection \<open>Powers of two and the binary exponent\<close>

lemma pow2_power_int: "pow2 e = power_int 2 e"
  by (simp add: pow2_def power_int_def field_simps)

lemma pow2_pos [simp]: "0 < pow2 e"
  by (simp add: pow2_power_int)

lemma pow2_add: "pow2 (a + b) = pow2 a * pow2 b"
  by (simp add: pow2_power_int power_int_add)

lemma pow2_diff: "pow2 (a - b) = pow2 a / pow2 b"
  by (simp add: pow2_power_int power_int_diff)

lemma pow2_mono: "a \<le> b \<Longrightarrow> pow2 a \<le> pow2 b"
  by (simp add: pow2_power_int power_int_increasing)

lemma pow2_strict_mono: "a < b \<Longrightarrow> pow2 a < pow2 b"
  by (simp add: pow2_power_int power_int_strict_increasing)

lemma pow2_le_iff: "pow2 a \<le> pow2 b \<longleftrightarrow> a \<le> b"
  by (metis pow2_mono pow2_strict_mono linorder_not_less)

lemma pow2_less_iff: "pow2 a < pow2 b \<longleftrightarrow> a < b"
  by (metis pow2_mono pow2_strict_mono linorder_not_less)

lemma pow2_nat: "pow2 (int n) = 2 ^ n"
  by (simp add: pow2_def)

lemma pow2_0 [simp]: "pow2 0 = 1"
  by (simp add: pow2_def)

lemma ilog2_bounds:
  assumes "0 < x"
  shows "pow2 (ilog2 x) \<le> x \<and> x < pow2 (ilog2 x + 1)"
proof -
  obtain p q where pq: "quotient_of x = (p, q)" by (cases "quotient_of x")
  have q: "0 < q" using pq by (rule quotient_of_denom_pos)
  have x: "x = of_int p / of_int q" using pq by (rule quotient_of_div)
  have p: "0 < p" using assms q x by (simp add: zero_less_divide_iff)
  define k where "k = bitlen p - bitlen q"
  have bp: "2 ^ nat (bitlen p - 1) \<le> p" "p < 2 ^ nat (bitlen p)"
    using bitlen_bounds [OF p] by auto
  have bq: "2 ^ nat (bitlen q - 1) \<le> q" "q < 2 ^ nat (bitlen q)"
    using bitlen_bounds [OF q] by auto
  have bp1: "1 \<le> bitlen p" using p bitlen_eq_zero_iff [of p] bitlen_nonneg [of p] by linarith
  have bq1: "1 \<le> bitlen q" using q bitlen_eq_zero_iff [of q] bitlen_nonneg [of q] by linarith
  have rp: "pow2 (bitlen p - 1) \<le> of_int p" "(of_int p :: rat) < pow2 (bitlen p)"
  proof -
    have "(of_int (2 ^ nat (bitlen p - 1)) :: rat) \<le> of_int p" using bp(1) by (simp only: of_int_le_iff)
    then show "pow2 (bitlen p - 1) \<le> of_int p" using bp1 by (simp add: pow2_def)
    have "(of_int p :: rat) < of_int (2 ^ nat (bitlen p))" using bp(2) by (simp only: of_int_less_iff)
    then show "(of_int p :: rat) < pow2 (bitlen p)" using bp1 by (simp add: pow2_def)
  qed
  have rq: "pow2 (bitlen q - 1) \<le> of_int q" "(of_int q :: rat) < pow2 (bitlen q)"
  proof -
    have "(of_int (2 ^ nat (bitlen q - 1)) :: rat) \<le> of_int q" using bq(1) by (simp only: of_int_le_iff)
    then show "pow2 (bitlen q - 1) \<le> of_int q" using bq1 by (simp add: pow2_def)
    have "(of_int q :: rat) < of_int (2 ^ nat (bitlen q))" using bq(2) by (simp only: of_int_less_iff)
    then show "(of_int q :: rat) < pow2 (bitlen q)" using bq1 by (simp add: pow2_def)
  qed
  have qpos: "(0::rat) < of_int q" using q by simp
  have up: "x < pow2 (k + 1)"
  proof -
    have "of_int p < pow2 (bitlen p)" by (rule rp(2))
    also have "\<dots> = pow2 (k + 1) * pow2 (bitlen q - 1)"
      by (simp add: k_def pow2_add [symmetric])
    also have "\<dots> \<le> pow2 (k + 1) * of_int q"
      using rq(1) by (simp add: mult_left_mono less_imp_le)
    finally show ?thesis using qpos by (simp add: x pos_divide_less_eq)
  qed
  have lo: "pow2 (k - 1) \<le> x"
  proof -
    have "pow2 (k - 1) * of_int q \<le> pow2 (k - 1) * pow2 (bitlen q)"
      using rq(2) by (simp add: mult_left_mono less_imp_le)
    also have "\<dots> = pow2 (bitlen p - 1)"
      by (simp add: k_def pow2_add [symmetric])
    also have "\<dots> \<le> of_int p" by (rule rp(1))
    finally show ?thesis using qpos by (simp add: x pos_le_divide_eq)
  qed
  have il: "ilog2 x = (if pow2 k \<le> x then k else k - 1)"
    by (simp add: ilog2_def pq k_def Let_def)
  show ?thesis
  proof (cases "pow2 k \<le> x")
    case True
    then show ?thesis using up il by simp
  next
    case False
    then show ?thesis using lo il by simp
  qed
qed

lemma ilog2_unique:
  assumes "pow2 k \<le> x" and "x < pow2 (k + 1)"
  shows "ilog2 x = k"
proof -
  have x: "0 < x" using assms(1) pow2_pos [of k] by linarith
  from ilog2_bounds [OF x] have b: "pow2 (ilog2 x) \<le> x" "x < pow2 (ilog2 x + 1)" by auto
  have "pow2 k < pow2 (ilog2 x + 1)" using assms(1) b(2) by linarith
  then have 1: "k < ilog2 x + 1" by (simp add: pow2_less_iff)
  have "pow2 (ilog2 x) < pow2 (k + 1)" using assms(2) b(1) by linarith
  then have 2: "ilog2 x < k + 1" by (simp add: pow2_less_iff)
  from 1 2 show ?thesis by linarith
qed

subsection \<open>Rounding to an integer\<close>

lemma round_half_even_of_int [simp]: "round_half_even (of_int m) = m"
  by (simp add: round_half_even_def)

lemma round_half_even_err: "\<bar>of_int (round_half_even y) - y\<bar> \<le> 1 / 2"
proof -
  have "of_int \<lfloor>y\<rfloor> \<le> y" "y < of_int \<lfloor>y\<rfloor> + 1" by linarith+
  then show ?thesis
    by (auto simp: round_half_even_def Let_def abs_le_iff)
qed

subsection \<open>Exact values and the rounding error\<close>

lemma pow2_nonzero [simp]: "pow2 e \<noteq> 0"
  by (metis pow2_pos less_irrefl)

lemma f64_round_pos:
  assumes "0 < x"
  shows "f64_round x =
     (let e = max (ilog2 x - 52) (- 1074);
          v = of_int (round_half_even (x / pow2 e)) * pow2 e
      in if pow2 1024 \<le> v then PInf else Fin v)"
  using assms by (simp add: f64_round_def Let_def)

lemma f64_round_neg:
  assumes "x < 0"
  shows "f64_round x =
     (let e = max (ilog2 (- x) - 52) (- 1074);
          v = of_int (round_half_even (- x / pow2 e)) * pow2 e
      in if pow2 1024 \<le> v then NInf else Fin (- v))"
  using assms by (simp add: f64_round_def Let_def)

text \<open>A value with a 53-bit significand and an exponent in range rounds to itself.\<close>

lemma f64_round_exact_pos:
  assumes m: "0 < m" "m \<le> 2 ^ 53" and j: "- 1074 \<le> j" and lt: "of_int m * pow2 j < pow2 1024"
  shows "f64_round (of_int m * pow2 j) = Fin (of_int m * pow2 j)"
proof -
  define x :: rat where "x = of_int m * pow2 j"
  have x: "0 < x" using m(1) by (simp add: x_def)
  define k where "k = ilog2 x"
  define e where "e = max (k - 52) (- 1074)"
  from ilog2_bounds [OF x] have b: "pow2 k \<le> x" "x < pow2 (k + 1)" by (auto simp: k_def)
  have "\<exists>i. x / pow2 e = of_int i"
  proof (cases "e \<le> j")
    case True
    have "x / pow2 e = of_int m * pow2 (j - e)" by (simp add: x_def pow2_diff)
    also have "pow2 (j - e) = of_int (2 ^ nat (j - e))" using True by (simp add: pow2_def)
    finally have "x / pow2 e = of_int (m * 2 ^ nat (j - e))" by simp
    then show ?thesis ..
  next
    case False
    then have ej: "j < e" by simp
    then have e: "e = k - 52" using j by (simp add: e_def max_def split: if_splits)
    have "pow2 (e + 52) \<le> of_int m * pow2 j" using b(1) e by (simp add: x_def)
    then have "pow2 (e + 52) / pow2 j \<le> of_int m" by (simp add: pos_divide_le_eq)
    then have "pow2 (e + 52 - j) \<le> of_int m" by (simp add: pow2_diff)
    moreover have "pow2 53 \<le> pow2 (e + 52 - j)" using ej by (intro pow2_mono) simp
    moreover have "(of_int m :: rat) \<le> pow2 53"
    proof -
      have "(of_int m :: rat) \<le> of_int (2 ^ 53)" using m(2) by (simp only: of_int_le_iff)
      then show ?thesis by (simp add: pow2_def)
    qed
    ultimately have m53: "(of_int m :: rat) = pow2 53" and "pow2 (e + 52 - j) = pow2 53"
      by linarith+
    then have "pow2 (e + 52 - j) \<le> pow2 53" by simp
    then have "e + 52 - j \<le> 53" by (simp only: pow2_le_iff)
    then have je: "j = e - 1" using ej by linarith
    have "x / pow2 e = pow2 53 * pow2 (e - 1) / pow2 e" by (simp add: x_def m53 je)
    also have "\<dots> = pow2 52" by (simp add: pow2_add [symmetric] pow2_diff [symmetric])
    also have "\<dots> = of_int (2 ^ 52)" by (simp add: pow2_def)
    finally show ?thesis ..
  qed
  then obtain i where i: "x / pow2 e = of_int i" ..
  have "of_int (round_half_even (x / pow2 e)) = x / pow2 e"
    by (simp add: i)
  then have v: "of_int (round_half_even (x / pow2 e)) * pow2 e = x"
    by simp
  have "f64_round x = Fin x"
    using lt by (simp add: f64_round_pos [OF x] Let_def k_def [symmetric] e_def [symmetric] v x_def [symmetric])
  then show ?thesis by (simp add: x_def)
qed

lemma f64_round_uminus:
  "f64_round (- x) =
     (case f64_round x of Fin v \<Rightarrow> Fin (- v) | PInf \<Rightarrow> NInf | NInf \<Rightarrow> PInf | NaN \<Rightarrow> NaN)"
  by (cases "x = 0"; cases "0 < x") (auto simp: f64_round_def Let_def)

lemma f64_round_of_int:
  assumes "\<bar>n\<bar> \<le> 2 ^ 53"
  shows "f64_round (of_int n) = Fin (of_int n)"
proof -
  have lt: "(of_int m :: rat) * pow2 0 < pow2 1024" if "0 < m" "m \<le> 2 ^ 53" for m :: int
  proof -
    have "(of_int m :: rat) \<le> of_int (2 ^ 53)" using that(2) by (simp only: of_int_le_iff)
    then have "(of_int m :: rat) \<le> pow2 53" by (simp add: pow2_def)
    also have "\<dots> < pow2 1024" by (rule pow2_strict_mono) simp
    finally show ?thesis by simp
  qed
  consider "n = 0" | "0 < n" | "n < 0" by linarith
  then show ?thesis
  proof cases
    case 1
    then show ?thesis by (simp add: f64_round_def)
  next
    case 2
    then have "n \<le> 2 ^ 53" using assms by simp
    from f64_round_exact_pos [OF 2 this _ lt [OF 2 this]] show ?thesis by simp
  next
    case 3
    then have p: "0 < - n" "- n \<le> 2 ^ 53" using assms by simp_all
    from f64_round_exact_pos [OF p _ lt [OF p]] have "f64_round (of_int (- n)) = Fin (of_int (- n))" by simp
    then have "f64_round (- of_int n) = Fin (- of_int n)" by simp
    then show ?thesis by (simp add: f64_round_uminus split: float64.splits)
  qed
qed

text \<open>In the normal range the rounding error is at most one part in \<open>2^53\<close>.\<close>

lemma f64_round_rel_error:
  assumes lo: "pow2 (- 1022) \<le> x" and hi: "x < pow2 1023"
  shows "\<exists>v. f64_round x = Fin v \<and> \<bar>v - x\<bar> \<le> x / 2 ^ 53"
proof -
  have x: "0 < x" using lo pow2_pos [of "- 1022"] by linarith
  define k where "k = ilog2 x"
  define e where "e = max (k - 52) (- 1074)"
  from ilog2_bounds [OF x] have b: "pow2 k \<le> x" "x < pow2 (k + 1)" by (auto simp: k_def)
  have "pow2 (- 1022) < pow2 (k + 1)" using lo b(2) by linarith
  then have k: "- 1022 \<le> k" by (simp add: pow2_less_iff)
  then have e: "e = k - 52" by (simp add: e_def)
  define v where "v = of_int (round_half_even (x / pow2 e)) * pow2 e"
  have "\<bar>of_int (round_half_even (x / pow2 e)) - x / pow2 e\<bar> * pow2 e \<le> 1 / 2 * pow2 e"
    by (intro mult_right_mono round_half_even_err) (simp add: less_imp_le)
  also have "\<bar>of_int (round_half_even (x / pow2 e)) - x / pow2 e\<bar> * pow2 e = \<bar>v - x\<bar>"
  proof -
    have "\<bar>of_int (round_half_even (x / pow2 e)) - x / pow2 e\<bar> * pow2 e
        = \<bar>(of_int (round_half_even (x / pow2 e)) - x / pow2 e) * pow2 e\<bar>"
      by (simp add: abs_mult abs_of_pos)
    also have "(of_int (round_half_even (x / pow2 e)) - x / pow2 e) * pow2 e = v - x"
      by (simp add: v_def algebra_simps)
    finally show ?thesis .
  qed
  also have "1 / 2 * pow2 e = pow2 k / 2 ^ 53"
  proof -
    have "pow2 e = pow2 k / pow2 52" by (simp add: e pow2_diff)
    also have "pow2 52 = 2 ^ 52" by (simp add: pow2_def)
    finally show ?thesis by simp
  qed
  also have "\<dots> \<le> x / 2 ^ 53" using b(1) by (simp add: divide_right_mono)
  finally have err: "\<bar>v - x\<bar> \<le> x / 2 ^ 53" .
  define d where "d = x / 2 ^ 53"
  have "\<bar>v - x\<bar> \<le> d" using err by (simp only: d_def)
  then have "v \<le> x + d" by linarith
  also have "d \<le> x" using x by (simp add: d_def field_simps)
  finally have "v \<le> x + x" by simp
  also have "\<dots> < 2 * pow2 1023" using hi by simp
  also have "\<dots> = pow2 1024" using pow2_add [of 1 1023] by (simp add: pow2_def)
  finally have "\<not> pow2 1024 \<le> v" by simp
  then have "f64_round x = Fin v"
    by (simp add: f64_round_pos [OF x] Let_def k_def [symmetric] e_def [symmetric] v_def [symmetric])
  with err show ?thesis by blast
qed

text \<open>The same bound for either sign, and what it says about the rounded value.\<close>

lemma f64_round_normal:
  assumes "x = 0 \<or> pow2 (- 1022) \<le> \<bar>x\<bar>" and "\<bar>x\<bar> < pow2 1023"
  shows "\<exists>v. f64_round x = Fin v \<and> \<bar>v - x\<bar> \<le> \<bar>x\<bar> / 2 ^ 53"
proof -
  consider "x = 0" | "0 < x" | "x < 0" by linarith
  then show ?thesis
  proof cases
    case 1
    then show ?thesis by (simp add: f64_round_def)
  next
    case 2
    then show ?thesis using assms f64_round_rel_error [of x] by simp
  next
    case 3
    then have "pow2 (- 1022) \<le> - x" "- x < pow2 1023" using assms by simp_all
    from f64_round_rel_error [OF this] obtain v
      where v: "f64_round (- x) = Fin v" "\<bar>v - (- x)\<bar> \<le> (- x) / 2 ^ 53" by blast
    have "f64_round x = Fin (- v)"
      using f64_round_uminus [of "- x"] v(1) by simp
    moreover have "\<bar>(- v) - x\<bar> = \<bar>v - (- x)\<bar>" by simp
    ultimately show ?thesis using v(2) 3 by (metis abs_of_neg)
  qed
qed

lemma f64_round_same_sign:
  assumes "f64_round x = Fin v" and "\<bar>v - x\<bar> \<le> \<bar>x\<bar> / 2 ^ 53"
  shows "(0 < v \<longleftrightarrow> 0 < x) \<and> \<bar>x\<bar> / 2 \<le> \<bar>v\<bar> \<and> \<bar>v\<bar> \<le> 2 * \<bar>x\<bar>"
proof -
  define d where "d = \<bar>x\<bar> / 2 ^ 53"
  have d: "d \<le> \<bar>x\<bar> / 2" "0 \<le> d" by (simp_all add: d_def field_simps)
  have "\<bar>v - x\<bar> \<le> d" using assms(2) by (simp only: d_def)
  with d show ?thesis by (auto simp: abs_le_iff abs_if split: if_splits)
qed

section \<open>The refill step\<close>

text \<open>
  The elapsed time \<^verbatim>\<open>float64(now-previousRefill) / 1e9\<close> is always finite, and positive
  exactly when the int64 difference is.
\<close>

lemma sint64_bounds: "- (2 ^ 63) \<le> sint (w :: 64 word)" "sint (w :: 64 word) < 2 ^ 63"
  using sint_ge [of w] sint_lt [of w] by simp_all

lemma elapsed_Fin:
  "\<exists>e. f64_div (f64_of_i64 w) (Fin 1000000000) = Fin e \<and> (0 < e \<longleftrightarrow> 0 < sint w)"
proof -
  define n where "n = sint w"
  have n: "\<bar>n\<bar> \<le> 2 ^ 63" using sint64_bounds [of w] by (simp add: n_def abs_le_iff)
  define x :: rat where "x = of_int n"
  have ax: "\<bar>x\<bar> = of_int \<bar>n\<bar>" by (simp add: x_def)
  have hi: "\<bar>x\<bar> \<le> pow2 63"
  proof -
    have "(of_int \<bar>n\<bar> :: rat) \<le> of_int (2 ^ 63)" using n by (simp only: of_int_le_iff)
    then show ?thesis by (simp add: ax pow2_def)
  qed
  have lo: "x = 0 \<or> pow2 0 \<le> \<bar>x\<bar>"
  proof (cases "n = 0")
    case True then show ?thesis by (simp add: x_def)
  next
    case False
    then have "1 \<le> \<bar>n\<bar>" by simp
    then have "(of_int 1 :: rat) \<le> of_int \<bar>n\<bar>" by (simp only: of_int_le_iff)
    then show ?thesis by (simp add: ax)
  qed
  have "x = 0 \<or> pow2 (- 1022) \<le> \<bar>x\<bar>"
    using lo pow2_mono [of "- 1022" 0] by auto
  moreover have "\<bar>x\<bar> < pow2 1023" using hi pow2_strict_mono [of 63 1023] by simp
  ultimately obtain v where v: "f64_round x = Fin v" "\<bar>v - x\<bar> \<le> \<bar>x\<bar> / 2 ^ 53"
    using f64_round_normal by blast
  from f64_round_same_sign [OF v]
  have sv: "0 < v \<longleftrightarrow> 0 < x" "\<bar>x\<bar> / 2 \<le> \<bar>v\<bar>" "\<bar>v\<bar> \<le> 2 * \<bar>x\<bar>" by auto
  define y where "y = v / 1000000000"
  have ay: "\<bar>y\<bar> = \<bar>v\<bar> / 1000000000" by (simp add: y_def)
  have yhi: "\<bar>y\<bar> < pow2 1023"
  proof -
    have "\<bar>y\<bar> \<le> \<bar>v\<bar>" by (simp add: ay field_simps)
    also have "\<dots> \<le> 2 * pow2 63" using sv(3) hi by linarith
    also have "\<dots> = pow2 64" using pow2_add [of 1 63] by (simp add: pow2_def)
    also have "\<dots> < pow2 1023" by (rule pow2_strict_mono) simp
    finally show ?thesis .
  qed
  have ylo: "y = 0 \<or> pow2 (- 1022) \<le> \<bar>y\<bar>"
  proof (cases "x = 0")
    case True
    then have "v = 0" using sv(3) by simp
    then show ?thesis by (simp add: y_def)
  next
    case False
    then have "1 \<le> \<bar>x\<bar>" using lo by simp
    then have "1 / 2 \<le> \<bar>v\<bar>" using sv(2) by linarith
    then have "1 / 2 / 1000000000 \<le> \<bar>y\<bar>" unfolding ay by (rule divide_right_mono) simp
    moreover have "pow2 (- 31) \<le> 1 / 2 / 1000000000" by (simp add: pow2_def)
    moreover have "pow2 (- 1022) \<le> pow2 (- 31)" by (rule pow2_mono) simp
    ultimately show ?thesis by linarith
  qed
  from f64_round_normal [OF ylo yhi] obtain e
    where e: "f64_round y = Fin e" "\<bar>e - y\<bar> \<le> \<bar>y\<bar> / 2 ^ 53" by blast
  from f64_round_same_sign [OF e] have "0 < e \<longleftrightarrow> 0 < y" by auto
  also have "\<dots> \<longleftrightarrow> 0 < v" by (simp add: y_def)
  also have "\<dots> \<longleftrightarrow> 0 < n" using sv(1) by (simp add: x_def)
  finally have "0 < e \<longleftrightarrow> 0 < sint w" by (simp add: n_def)
  moreover have "f64_div (f64_of_i64 w) (Fin 1000000000) = Fin e"
    using v(1) e(1) by (simp add: f64_of_i64_def n_def [symmetric] x_def [symmetric] y_def [symmetric])
  ultimately show ?thesis by blast
qed

text \<open>
  So the refill step decides on the integer difference, and its compare-and-swap,
  coming right after the load, succeeds.
\<close>

lemma calculateTokenRefill_unfold:
  "calculateTokenRefill unrep r now =
     (if 0 < sint (now - lastRefill r) then
        (let newTokens = u64_of_f64 unrep (f64_mul (f64_of_u64 (maxRPS r))
                           (f64_div (f64_of_i64 (now - lastRefill r)) (Fin 1000000000)))
         in if 0 < newTokens
            then r\<lparr>tokens := min (tokens r + newTokens) (capacity r), lastRefill := now\<rparr>
            else r\<lparr>lastRefill := now\<rparr>)
      else r)"
proof -
  obtain e where e: "f64_div (f64_of_i64 (now - lastRefill r)) (Fin 1000000000) = Fin e"
    "0 < e \<longleftrightarrow> 0 < sint (now - lastRefill r)"
    using elapsed_Fin by blast
  show ?thesis
    by (simp add: calculateTokenRefill_def Let_def lastRefill_Load_def lastRefill_CompareAndSwap_def
        tokens_Load_def tokens_Store_def e)
qed

section \<open>The operations run by one goroutine\<close>

lemma Allow_loop_once:
  "Allow_loop r = (if tokens r = 0 then (False, r) else (True, r\<lparr>tokens := tokens r - 1\<rparr>))"
  by (subst Allow_loop.simps) (simp add: tokens_CompareAndSwap_def tokens_Load_def)

lemma TryAllow_loop_once:
  "TryAllow_loop r n = (if tokens r < n then (False, r) else (True, r\<lparr>tokens := tokens r - n\<rparr>))"
  by (subst TryAllow_loop.simps) (simp add: tokens_CompareAndSwap_def tokens_Load_def)

lemma refill_maxRPS [simp]: "maxRPS (calculateTokenRefill unrep r now) = maxRPS r"
  by (simp add: calculateTokenRefill_unfold Let_def)

lemma refill_capacity [simp]: "capacity (calculateTokenRefill unrep r now) = capacity r"
  by (simp add: calculateTokenRefill_unfold Let_def)

lemma refill_tokens_cases:
  "tokens (calculateTokenRefill unrep r now) = tokens r
   \<or> tokens (calculateTokenRefill unrep r now) \<le> capacity r"
  by (simp add: calculateTokenRefill_unfold Let_def)

lemma refill_bounded:
  "tokens r \<le> capacity r \<Longrightarrow> tokens (calculateTokenRefill unrep r now) \<le> capacity r"
  using refill_tokens_cases [of unrep r now] by auto

lemma refill_idle:
  "\<not> 0 < sint (now - lastRefill r) \<Longrightarrow> calculateTokenRefill unrep r now = r"
  by (simp add: calculateTokenRefill_unfold)

lemma refill_lastRefill:
  "0 < sint (now - lastRefill r) \<Longrightarrow> lastRefill (calculateTokenRefill unrep r now) = now"
  by (simp add: calculateTokenRefill_unfold Let_def)

lemma refill_same_reading:
  "calculateTokenRefill unrep (calculateTokenRefill unrep r now) now = calculateTokenRefill unrep r now"
proof (cases "0 < sint (now - lastRefill r)")
  case True
  then have "lastRefill (calculateTokenRefill unrep r now) = now" by (rule refill_lastRefill)
  then show ?thesis by (intro refill_idle) simp
next
  case False
  then show ?thesis by (simp add: refill_idle)
qed

lemma word_pred_le: "(x :: 'a::len word) \<noteq> 0 \<Longrightarrow> x - 1 \<le> x"
proof -
  assume "x \<noteq> 0"
  then have "1 \<le> x" by (simp add: word_le_nat_alt unat_gt_0 Suc_le_eq)
  then show ?thesis by (rule word_sub_le)
qed

lemma word_diff_le: "(n :: 'a::len word) \<le> x \<Longrightarrow> x - n \<le> x"
  by (simp add: word_sub_le)

lemma Allow_unfold:
  "Allow unrep r now =
     (if maxRPS r = 0 then (True, r)
      else if tokens (calculateTokenRefill unrep r now) = 0
           then (False, calculateTokenRefill unrep r now)
           else (True, (calculateTokenRefill unrep r now)
                         \<lparr>tokens := tokens (calculateTokenRefill unrep r now) - 1\<rparr>))"
  by (simp add: Allow_def Allow_loop_once)

lemma TryAllow_unfold:
  "TryAllow unrep r now n =
     (if maxRPS r = 0 then (True, r)
      else if n = 0 then (True, r)
      else if capacity r < n then (False, r)
      else if tokens (calculateTokenRefill unrep r now) < n
           then (False, calculateTokenRefill unrep r now)
           else (True, (calculateTokenRefill unrep r now)
                         \<lparr>tokens := tokens (calculateTokenRefill unrep r now) - n\<rparr>))"
  by (simp add: TryAllow_def TryAllow_loop_once)

lemma Available_unfold:
  "Available unrep r now =
     (tokens (calculateTokenRefill unrep r now), calculateTokenRefill unrep r now)"
  by (simp add: Available_def tokens_Load_def Let_def)

subsection \<open>The invariant along a sequence of calls\<close>

lemma step_config:
  "maxRPS (snd (step unrep r c)) = maxRPS r \<and> capacity (snd (step unrep r c)) = capacity r"
proof -
  obtain k t where c: "c = (k, t)" by (cases c)
  show ?thesis
    by (cases k) (simp_all add: c Allow_unfold TryAllow_unfold Available_unfold)
qed

lemma step_bounded:
  assumes "tokens r \<le> capacity r"
  shows "tokens (snd (step unrep r c)) \<le> capacity r"
proof -
  obtain k t where c: "c = (k, t)" by (cases c)
  let ?r1 = "calculateTokenRefill unrep r t"
  have b: "tokens ?r1 \<le> capacity r" using assms by (rule refill_bounded)
  have p: "tokens ?r1 \<noteq> 0 \<Longrightarrow> tokens ?r1 - 1 \<le> capacity r"
    using b word_pred_le [of "tokens ?r1"] by (metis order_trans)
  have q: "\<not> tokens ?r1 < n \<Longrightarrow> tokens ?r1 - n \<le> capacity r" for n
    using b word_diff_le [of n "tokens ?r1"] by (metis order_trans linorder_not_less)
  show ?thesis
    using assms b p q
    by (cases k) (simp_all add: c Allow_unfold TryAllow_unfold Available_unfold)
qed

lemma run_invariant:
  assumes "tokens r \<le> capacity r"
  shows "\<forall>(y, r') \<in> set (run unrep r cs).
           tokens r' \<le> capacity r' \<and> capacity r' = capacity r \<and> maxRPS r' = maxRPS r"
  using assms
proof (induction cs arbitrary: r)
  case Nil
  then show ?case by simp
next
  case (Cons c cs)
  let ?r1 = "snd (step unrep r c)"
  have cfg: "maxRPS ?r1 = maxRPS r" "capacity ?r1 = capacity r"
    using step_config [of unrep r c] by simp_all
  have b: "tokens ?r1 \<le> capacity ?r1"
    using step_bounded [OF Cons.prems, of unrep c] cfg by simp
  from Cons.IH [OF b] cfg b show ?case
    by (auto simp: case_prod_beta)
qed

lemma NewLimiter_fields:
  "maxRPS (NewLimiter unrep m cf t0) = m"
  "tokens (NewLimiter unrep m cf t0) = capacity (NewLimiter unrep m cf t0)"
  "lastRefill (NewLimiter unrep m cf t0) = t0"
  "capacity (NewLimiter unrep m cf t0) =
     max (max (u64_of_f64 unrep (f64_mul (f64_of_u64 m)
            (if f64_lt cf (Fin 1) then Fin 1 else cf))) 1) m"
  by (simp_all add: NewLimiter_def Let_def tokens_Store_def lastRefill_Store_def)

section \<open>How many tokens a refill adds\<close>

lemma u64_of_f64_fraction:
  assumes "0 \<le> z" "z < 1"
  shows "u64_of_f64 unrep (Fin z) = 0"
proof -
  have "\<lfloor>z\<rfloor> = 0" using assms by (simp add: floor_eq_iff)
  then show ?thesis using assms by (simp add: u64_of_f64_def trunc_def)
qed

lemma u64_of_f64_of_int:
  assumes "0 \<le> n" "n < 2 ^ 64"
  shows "u64_of_f64 unrep (Fin (of_int n)) = word_of_int n"
  using assms by (simp add: u64_of_f64_def trunc_def)

lemma f64_of_u64_exact:
  assumes "uint w \<le> 2 ^ 53"
  shows "f64_of_u64 w = Fin (of_int (uint w))"
  unfolding f64_of_u64_def using assms by (intro f64_round_of_int) simp

lemma f64_of_i64_exact:
  assumes "\<bar>sint w\<bar> \<le> 2 ^ 53"
  shows "f64_of_i64 w = Fin (of_int (sint w))"
  unfolding f64_of_i64_def using assms by (rule f64_round_of_int)

lemma abs_err_bounds:
  assumes "\<bar>v - x\<bar> \<le> \<bar>x\<bar> / 2 ^ 53" and "0 < (x :: rat)"
  shows "v \<le> x + x * (1 / 2 ^ 53)" and "x - x * (1 / 2 ^ 53) \<le> v"
proof -
  define t where "t = x * (1 / 2 ^ 53)"
  have "\<bar>x\<bar> / 2 ^ 53 = t" using assms(2) by (simp add: t_def)
  then have t: "\<bar>v - x\<bar> \<le> t" using assms(1) by simp
  show "v \<le> x + x * (1 / 2 ^ 53)" unfolding t_def [symmetric] using t by linarith
  show "x - x * (1 / 2 ^ 53) \<le> v" unfolding t_def [symmetric] using t by linarith
qed

text \<open>Less than one token's worth of time converts to zero new tokens.\<close>

lemma newTokens_zero:
  assumes d: "0 < sint w" and lt: "sint w * uint mr < 1000000000"
  shows "u64_of_f64 unrep (f64_mul (f64_of_u64 mr) (f64_div (f64_of_i64 w) (Fin 1000000000))) = 0"
proof (cases "mr = 0")
  case True
  obtain e where e: "f64_div (f64_of_i64 w) (Fin 1000000000) = Fin e"
    using elapsed_Fin by blast
  have "f64_of_u64 mr = Fin 0" using True by (simp add: f64_of_u64_def f64_round_def)
  then have "f64_mul (f64_of_u64 mr) (f64_div (f64_of_i64 w) (Fin 1000000000)) = Fin 0"
    by (simp add: e f64_round_def)
  then show ?thesis by (simp add: u64_of_f64_fraction)
next
  case False
  define d where "d = sint w"
  define m where "m = uint mr"
  have m1: "1 \<le> m"
  proof -
    have "uint mr \<noteq> 0" using False by (simp add: uint_0_iff)
    moreover have "0 \<le> uint mr" by simp
    ultimately show ?thesis unfolding m_def by linarith
  qed
  have d1: "1 \<le> d" using d by (simp add: d_def)
  have dm: "d * m \<le> 999999999" using lt by (simp add: d_def m_def)
  have "d * 1 \<le> d * m" using d1 m1 by (intro mult_left_mono) simp_all
  then have d9: "d \<le> 999999999" using dm by simp
  have "1 * m \<le> d * m" using d1 m1 by (intro mult_right_mono) simp_all
  then have m9: "m \<le> 999999999" using dm by simp
  have fd: "f64_of_i64 w = Fin (of_int d)"
    unfolding d_def using d1 d9 by (intro f64_of_i64_exact) (simp add: d_def)
  have fm: "f64_of_u64 mr = Fin (of_int m)"
    unfolding m_def using m9 by (intro f64_of_u64_exact) (simp add: m_def)
  define x :: rat where "x = of_int d / 1000000000"
  have xpos: "0 < x" using d1 by (simp add: x_def)
  have xm: "of_int m * x \<le> 999999999 / 1000000000"
  proof -
    have "(of_int (d * m) :: rat) \<le> of_int 999999999" using dm by (simp only: of_int_le_iff)
    then show ?thesis by (simp add: x_def mult.commute)
  qed
  have xlo: "pow2 (- 1022) \<le> \<bar>x\<bar>"
  proof -
    have "(of_int 1 :: rat) \<le> of_int d" using d1 by (simp only: of_int_le_iff)
    then have "1 / 1000000000 \<le> x" by (simp add: x_def)
    moreover have "pow2 (- 30) \<le> 1 / 1000000000" by (simp add: pow2_def)
    moreover have "pow2 (- 1022) \<le> pow2 (- 30)" by (rule pow2_mono) simp
    ultimately show ?thesis by linarith
  qed
  have xhi: "\<bar>x\<bar> < pow2 1023"
  proof -
    have "1 \<le> (of_int m :: rat)" using m1 by simp
    then have "x * 1 \<le> x * of_int m" using xpos by (intro mult_left_mono) simp_all
    then have "x < 1" using xm by (simp add: mult.commute)
    moreover have "pow2 0 \<le> pow2 1023" by (rule pow2_mono) simp
    ultimately show ?thesis using xpos by simp
  qed
  from f64_round_normal [of x] xlo xhi obtain e
    where e: "f64_round x = Fin e" "\<bar>e - x\<bar> \<le> \<bar>x\<bar> / 2 ^ 53" by blast
  have el: "f64_div (f64_of_i64 w) (Fin 1000000000) = Fin e"
    by (simp add: fd e(1) x_def [symmetric])
  define y where "y = of_int m * e"
  define c :: rat where "c = 1 / 2 ^ 53"
  have cpos: "0 < c" by (simp add: c_def)
  have e_hi: "e \<le> x + x * c" and e_lo: "x - x * c \<le> e"
    using abs_err_bounds [OF e(2) xpos] by (simp_all only: c_def)
  have mpos: "0 < (of_int m :: rat)" using m1 by simp
  have y_hi: "y \<le> (999999999 / 1000000000) * (1 + c)"
  proof -
    have "y \<le> of_int m * (x + x * c)" unfolding y_def using e_hi mpos by (intro mult_left_mono) simp_all
    also have "\<dots> = (of_int m * x) * (1 + c)" by (simp add: algebra_simps)
    also have "\<dots> \<le> (999999999 / 1000000000) * (1 + c)"
      using xm cpos by (intro mult_right_mono) simp_all
    finally show ?thesis .
  qed
  have y_lo: "1 / 2000000000 \<le> y"
  proof -
    have "(of_int 1 :: rat) \<le> of_int d" using d1 by (simp only: of_int_le_iff)
    then have x9: "1 / 1000000000 \<le> x" by (simp add: x_def)
    have "x * c \<le> x * (1 / 2)" using xpos by (intro mult_left_mono) (simp_all add: c_def)
    then have "x / 2 \<le> e" using e_lo by simp
    then have "1 / 2000000000 \<le> e" using x9 by simp
    also have "e * 1 \<le> e * of_int m" using m1 \<open>1 / 2000000000 \<le> e\<close> by (intro mult_left_mono) simp_all
    finally show ?thesis by (simp add: y_def mult.commute)
  qed
  have ypos: "0 < y" using y_lo by simp
  have ylo: "pow2 (- 1022) \<le> \<bar>y\<bar>"
  proof -
    have "pow2 (- 31) \<le> 1 / 2000000000" by (simp add: pow2_def)
    moreover have "pow2 (- 1022) \<le> pow2 (- 31)" by (rule pow2_mono) simp
    ultimately show ?thesis using y_lo by linarith
  qed
  have y1: "y < 1"
  proof -
    have "(999999999 / 1000000000) * (1 + c) < 1" by (simp add: c_def)
    with y_hi show ?thesis by simp
  qed
  have yhi: "\<bar>y\<bar> < pow2 1023"
    using y1 ypos pow2_mono [of 0 1023] by simp
  from f64_round_normal [of y] ylo yhi obtain z
    where z: "f64_round y = Fin z" "\<bar>z - y\<bar> \<le> \<bar>y\<bar> / 2 ^ 53" by blast
  have z_hi: "z \<le> y + y * c" and z_lo: "y - y * c \<le> z"
    using abs_err_bounds [OF z(2) ypos] by (simp_all only: c_def)
  have "y * c \<le> y * 1" using ypos by (intro mult_left_mono) (simp_all add: c_def)
  then have z0: "0 \<le> z" using z_lo by simp
  have z1: "z < 1"
  proof -
    have "y + y * c = y * (1 + c)" by (simp add: algebra_simps)
    also have "\<dots> \<le> ((999999999 / 1000000000) * (1 + c)) * (1 + c)"
      using y_hi cpos by (intro mult_right_mono) simp_all
    also have "\<dots> < 1" by (simp add: c_def)
    finally show ?thesis using z_hi by simp
  qed
  have "f64_mul (f64_of_u64 mr) (f64_div (f64_of_i64 w) (Fin 1000000000)) = Fin z"
    by (simp add: fm el z(1) y_def [symmetric])
  then show ?thesis using z0 z1 by (simp add: u64_of_f64_fraction)
qed

subsection \<open>Small values\<close>

lemma f64_round_numeral:
  "numeral k \<le> (9007199254740992 :: int) \<Longrightarrow> f64_round (numeral k) = Fin (numeral k)"
  using f64_round_of_int [of "numeral k"] by simp

lemma f64_round_1: "f64_round 1 = Fin 1"
  using f64_round_of_int [of 1] by simp

lemma f64_round_0: "f64_round 0 = Fin 0"
  by (simp add: f64_round_def)

lemma f64_round_fifth: "f64_round (1 / 5) = Fin (3602879701896397 / 18014398509481984)"
  by code_simp

subsection \<open>Windows shorter than one token\<close>

lemma sint64_diff:
  "- (2 ^ 63) \<le> sint a - sint b \<Longrightarrow> sint a - sint b < 2 ^ 63
   \<Longrightarrow> sint (a - b :: 64 word) = sint a - sint b"
  by (simp add: sint_word_diff signed_take_bit_int_eq_self)

lemma uint_nonzero: "(w :: 'a::len word) \<noteq> 0 \<Longrightarrow> 1 \<le> uint w"
proof -
  assume "w \<noteq> 0"
  then have "uint w \<noteq> 0" by (simp add: uint_0_iff)
  moreover have "0 \<le> uint w" by simp
  ultimately show ?thesis by linarith
qed

text \<open>
  While every clock reading and the last refill instant lie in one window too short
  for a token (\<open>W\<close> nanoseconds with \<open>W * maxRPS \<le> 10^9\<close>), a refill only moves the
  refill instant.
\<close>

lemma refill_window:
  assumes m: "maxRPS r \<noteq> 0" and W: "W * uint (maxRPS r) \<le> 1000000000"
    and lr: "lo \<le> sint (lastRefill r)" "sint (lastRefill r) < lo + W"
    and t: "lo \<le> sint t" "sint t < lo + W"
  shows "calculateTokenRefill unrep r t =
           r\<lparr>lastRefill := (if sint (lastRefill r) < sint t then t else lastRefill r)\<rparr>"
proof -
  have m1: "1 \<le> uint (maxRPS r)" using m by (rule uint_nonzero)
  have W9: "W \<le> 1000000000"
  proof (cases "0 \<le> W")
    case True
    then have "W * 1 \<le> W * uint (maxRPS r)" using m1 by (intro mult_left_mono) simp_all
    then show ?thesis using W by simp
  next
    case False
    then show ?thesis by simp
  qed
  have d: "sint (t - lastRefill r) = sint t - sint (lastRefill r)"
    using lr t W9 by (intro sint64_diff) simp_all
  show ?thesis
  proof (cases "sint (lastRefill r) < sint t")
    case True
    then have pos: "0 < sint (t - lastRefill r)" by (simp add: d)
    have "sint (t - lastRefill r) < W" using lr t by (simp add: d)
    then have "sint (t - lastRefill r) * uint (maxRPS r) < W * uint (maxRPS r)"
      using m1 by (intro mult_strict_right_mono) simp_all
    then have "sint (t - lastRefill r) * uint (maxRPS r) < 1000000000" using W by simp
    from newTokens_zero [OF pos this] pos True show ?thesis
      by (simp add: calculateTokenRefill_unfold)
  next
    case False
    then have "\<not> 0 < sint (t - lastRefill r)" by (simp add: d)
    then show ?thesis using False by (simp add: refill_idle)
  qed
qed

lemma final_append: "final unrep r (xs @ ys) = final unrep (final unrep r xs) ys"
  by (induction xs arbitrary: r) simp_all

lemma run_append: "run unrep r (xs @ ys) = run unrep r xs @ run unrep (final unrep r xs) ys"
  by (induction xs arbitrary: r) simp_all

lemma unat_pred: "(x :: 'a::len word) \<noteq> 0 \<Longrightarrow> unat (x - 1) = unat x - 1"
  by (simp add: unat_minus_one)

lemma run_Allow_window:
  assumes m: "maxRPS r \<noteq> 0" and W: "W * uint (maxRPS r) \<le> 1000000000"
    and lr: "lo \<le> sint (lastRefill r)" "sint (lastRefill r) < lo + W"
    and ts: "\<forall>t\<in>set ts. lo \<le> sint t \<and> sint t < lo + W"
    and n: "length ts \<le> unat (tokens r)"
  shows "map fst (run unrep r (map (Pair Call_Allow) ts)) = replicate (length ts) (Reply_bool True)
       \<and> tokens (final unrep r (map (Pair Call_Allow) ts)) = tokens r - of_nat (length ts)
       \<and> maxRPS (final unrep r (map (Pair Call_Allow) ts)) = maxRPS r
       \<and> capacity (final unrep r (map (Pair Call_Allow) ts)) = capacity r
       \<and> lo \<le> sint (lastRefill (final unrep r (map (Pair Call_Allow) ts)))
       \<and> sint (lastRefill (final unrep r (map (Pair Call_Allow) ts))) < lo + W"
  using m W lr ts n
proof (induction ts arbitrary: r)
  case Nil
  then show ?case by simp
next
  case (Cons t ts)
  have t: "lo \<le> sint t" "sint t < lo + W" using Cons.prems(5) by simp_all
  let ?r1 = "calculateTokenRefill unrep r t"
  have r1: "?r1 = r\<lparr>lastRefill := (if sint (lastRefill r) < sint t then t else lastRefill r)\<rparr>"
    using Cons.prems(1-4) t by (rule refill_window)
  have tok: "tokens r \<noteq> 0" using Cons.prems(6) by (auto simp: unat_eq_zero [symmetric])
  let ?r2 = "?r1\<lparr>tokens := tokens r - 1\<rparr>"
  have st: "step unrep r (Call_Allow, t) = (Reply_bool True, ?r2)"
    using Cons.prems(1) tok by (simp add: Allow_unfold r1)
  have f2: "maxRPS ?r2 = maxRPS r" "capacity ?r2 = capacity r" "tokens ?r2 = tokens r - 1"
    "lo \<le> sint (lastRefill ?r2)" "sint (lastRefill ?r2) < lo + W"
    using t Cons.prems(3,4) by (simp_all add: r1)
  have n2: "length ts \<le> unat (tokens ?r2)"
    using Cons.prems(6) tok by (simp add: unat_pred)
  have ts2: "\<forall>t\<in>set ts. lo \<le> sint t \<and> sint t < lo + W" using Cons.prems(5) by simp
  have m2: "maxRPS ?r2 \<noteq> 0" "W * uint (maxRPS ?r2) \<le> 1000000000"
    using Cons.prems(1,2) by (simp_all add: r1)
  from Cons.IH [OF m2 f2(4,5) ts2 n2]
  show ?case
    by (simp only: list.map run.simps final.simps st snd_conv fst_conv f2 length_Cons replicate_Suc)
       (simp add: algebra_simps)
qed

section \<open>Facts about the constructor, the configuration and runs\<close>

lemma NewLimiter_10_2:
  "NewLimiter unrep 10 (Fin 2) t0 = \<lparr>maxRPS = 10, capacity = 20, tokens = 20, lastRefill = t0\<rparr>"
  by (simp add: NewLimiter_def Let_def tokens_Store_def lastRefill_Store_def
      f64_of_u64_def f64_round_numeral u64_of_f64_def trunc_def)

lemma NewLimiter_bounded: "tokens (NewLimiter unrep m cf t0) \<le> capacity (NewLimiter unrep m cf t0)"
  by (simp add: NewLimiter_fields(2))

lemma uint_pred: "(x :: 'a::len word) \<noteq> 0 \<Longrightarrow> uint (x - 1) = uint x - 1"
proof -
  assume "x \<noteq> 0"
  then have "uint (1 :: 'a word) \<le> uint x" using uint_nonzero [of x] by simp
  then have "uint (x - 1) = uint x - uint (1 :: 'a word)" by (simp only: uint_sub_lem)
  then show ?thesis by simp
qed

lemma uint_diff: "\<not> (x :: 'a::len word) < n \<Longrightarrow> uint (x - n) = uint x - uint n"
proof -
  assume "\<not> x < n"
  then have "uint n \<le> uint x" by (simp add: word_less_def)
  then show ?thesis by (simp only: uint_sub_lem)
qed

lemma newTokens_one_second:
  assumes "sint w = 1000000000" and "uint mr \<le> 2 ^ 53"
  shows "u64_of_f64 unrep (f64_mul (f64_of_u64 mr) (f64_div (f64_of_i64 w) (Fin 1000000000))) = mr"
proof -
  have "f64_of_i64 w = Fin 1000000000"
    using f64_of_i64_exact [of w] assms(1) by simp
  then have el: "f64_div (f64_of_i64 w) (Fin 1000000000) = Fin 1"
    by (simp add: f64_round_1)
  have "f64_round (of_int (uint mr)) = Fin (of_int (uint mr))"
    using assms(2) by (intro f64_round_of_int) simp
  then have "f64_mul (f64_of_u64 mr) (Fin 1) = Fin (of_int (uint mr))"
    by (simp add: f64_of_u64_exact [OF assms(2)])
  moreover have "u64_of_f64 unrep (Fin (of_int (uint mr))) = word_of_int (uint mr)"
    using uint_lt2p [of mr] by (intro u64_of_f64_of_int) simp_all
  ultimately show ?thesis
    by (simp add: el)
qed

lemma final_Allow_idle:
  assumes "maxRPS r \<noteq> 0" and "\<not> 0 < sint (t - lastRefill r)" and "n \<le> unat (tokens r)"
  shows "final unrep r (replicate n (Call_Allow, t)) = r\<lparr>tokens := tokens r - of_nat n\<rparr>"
  using assms
proof (induction n arbitrary: r)
  case 0
  then show ?case by simp
next
  case (Suc n)
  have tok: "tokens r \<noteq> 0" using Suc.prems(3) by (auto simp: unat_eq_zero [symmetric])
  let ?r1 = "r\<lparr>tokens := tokens r - 1\<rparr>"
  have st: "snd (step unrep r (Call_Allow, t)) = ?r1"
    using Suc.prems(1,2) tok by (simp add: Allow_unfold refill_idle)
  have "final unrep ?r1 (replicate n (Call_Allow, t)) = ?r1\<lparr>tokens := tokens ?r1 - of_nat n\<rparr>"
    using Suc.prems tok by (intro Suc.IH) (simp_all add: unat_pred)
  then show ?case
    by (simp only: replicate_Suc final.simps st) (simp add: algebra_simps)
qed

lemma spec_capacity_max:
  "spec_capacity M f = max (max \<lfloor>of_int M * (if f < 1 then 1 else f)\<rfloor> 1) M"
  by (simp add: spec_capacity_def Let_def max.assoc max.commute max.left_commute)

lemma uint_max: "uint (max a b) = max (uint a) (uint (b :: 'a::len word))"
  by (simp add: max_def word_le_def)

text \<open>
  When \<open>maxRPS\<close> fits the 53-bit significand and the exact product is itself a binary64
  value below \<open>2^64\<close>, no step of \<^verbatim>\<open>uint64(float64(maxRPS)*capacityFactor)\<close> rounds.
\<close>

lemma capacity_product_exact:
  assumes m: "uint m \<le> 2 ^ 53"
    and p: "of_int (uint m) * f = of_int k * pow2 j"
    and k: "0 \<le> k" "k \<le> 2 ^ 53" and j: "- 1074 \<le> j"
    and lt: "of_int k * pow2 j < 2 ^ 64"
  shows "u64_of_f64 unrep (f64_mul (f64_of_u64 m) (Fin f)) = word_of_int \<lfloor>of_int (uint m) * f\<rfloor>"
    and "uint (word_of_int \<lfloor>of_int (uint m) * f\<rfloor> :: uint64) = \<lfloor>of_int (uint m) * f\<rfloor>"
proof -
  define q :: rat where "q = of_int (uint m) * f"
  have qk: "q = of_int k * pow2 j" using p by (simp add: q_def)
  have q0: "0 \<le> q" using k(1) by (simp add: qk less_imp_le)
  have q64: "q < 2 ^ 64" using lt by (simp add: qk)
  have rnd: "f64_round q = Fin q"
  proof (cases "k = 0")
    case True
    then show ?thesis by (simp add: qk f64_round_def)
  next
    case False
    then have kpos: "0 < k" using k(1) by simp
    have "pow2 64 < pow2 1024" by (rule pow2_strict_mono) simp
    moreover have "pow2 64 = 2 ^ 64" by (simp add: pow2_def)
    ultimately have "of_int k * pow2 j < pow2 1024" using lt by simp
    from f64_round_exact_pos [OF kpos k(2) j this] show ?thesis by (simp add: qk)
  qed
  have fl0: "0 \<le> \<lfloor>q\<rfloor>" using q0 by simp
  have fl64: "\<lfloor>q\<rfloor> < 2 ^ 64" using q64 by (simp add: floor_less_iff)
  have "f64_mul (f64_of_u64 m) (Fin f) = f64_round q"
    by (simp only: f64_of_u64_exact [OF m] f64_mul.simps q_def)
  then have "f64_mul (f64_of_u64 m) (Fin f) = Fin q"
    by (simp only: rnd)
  then have "u64_of_f64 unrep (f64_mul (f64_of_u64 m) (Fin f)) = word_of_int \<lfloor>q\<rfloor>"
    using q0 fl0 fl64 by (simp add: u64_of_f64_def trunc_def)
  then show "u64_of_f64 unrep (f64_mul (f64_of_u64 m) (Fin f)) = word_of_int \<lfloor>of_int (uint m) * f\<rfloor>"
    by (simp only: q_def)
  have "uint (word_of_int \<lfloor>q\<rfloor> :: uint64) = \<lfloor>q\<rfloor>"
    using fl0 fl64 by (simp add: uint_word_of_int take_bit_int_eq_self)
  then show "uint (word_of_int \<lfloor>of_int (uint m) * f\<rfloor> :: uint64) = \<lfloor>of_int (uint m) * f\<rfloor>"
    by (simp only: q_def)
qed

lemma f64_round_above_2_53:
  "f64_round 9007199254740995 = Fin 9007199254740996"
  by code_simp

lemma f64_round_even_above_2_53:
  "f64_round 9007199254740996 = Fin 9007199254740996"
  by code_simp

lemma SetMaxRPS_unfold:
  assumes "c = max (max (u64_of_f64 unrep (f64_mul (f64_of_u64 m)
                 (if f64_lt cf (Fin 1) then Fin 1 else cf))) 1) m"
  shows "SetMaxRPS unrep r m cf =
     (if c < tokens r then r\<lparr>maxRPS := m, capacity := c, tokens := c\<rparr>
      else r\<lparr>maxRPS := m, capacity := c\<rparr>)"
  unfolding assms
  by (simp only: SetMaxRPS_def Let_def tokens_Load_def tokens_CompareAndSwap_def)
     (simp del: max_less_iff_conj)

lemma SetMaxRPS_fields:
  "maxRPS (SetMaxRPS unrep r m cf) = m"
  "capacity (SetMaxRPS unrep r m cf) =
     max (max (u64_of_f64 unrep (f64_mul (f64_of_u64 m)
            (if f64_lt cf (Fin 1) then Fin 1 else cf))) 1) m"
  "lastRefill (SetMaxRPS unrep r m cf) = lastRefill r"
  "tokens (SetMaxRPS unrep r m cf) =
     (if capacity (SetMaxRPS unrep r m cf) < tokens r then capacity (SetMaxRPS unrep r m cf)
      else tokens r)"
proof -
  define c where "c = max (max (u64_of_f64 unrep (f64_mul (f64_of_u64 m)
                 (if f64_lt cf (Fin 1) then Fin 1 else cf))) 1) m"
  note u = SetMaxRPS_unfold [OF c_def, of r]
  show "maxRPS (SetMaxRPS unrep r m cf) = m" by (simp add: u)
  show c: "capacity (SetMaxRPS unrep r m cf) =
     max (max (u64_of_f64 unrep (f64_mul (f64_of_u64 m)
            (if f64_lt cf (Fin 1) then Fin 1 else cf))) 1) m"
    unfolding c_def [symmetric] by (simp add: u)
  show "lastRefill (SetMaxRPS unrep r m cf) = lastRefill r" by (simp add: u)
  show "tokens (SetMaxRPS unrep r m cf) =
     (if capacity (SetMaxRPS unrep r m cf) < tokens r then capacity (SetMaxRPS unrep r m cf)
      else tokens r)"
    unfolding c unfolding c_def [symmetric] by (simp add: u)
qed

lemma run_unlimited:
  assumes "maxRPS r = 0"
  shows "run unrep r (map (Pair Call_Allow) ts) = map (\<lambda>t. (Reply_bool True, r)) ts"
  using assms by (induction ts) (simp_all add: Allow_unfold)

lemma refill_unlimited:
  assumes "maxRPS r = 0"
  shows "calculateTokenRefill unrep r now
           = (if 0 < sint (now - lastRefill r) then r\<lparr>lastRefill := now\<rparr> else r)"
proof -
  obtain e where e: "f64_div (f64_of_i64 (now - lastRefill r)) (Fin 1000000000) = Fin e"
    using elapsed_Fin by blast
  have "f64_of_u64 (maxRPS r) = Fin 0" by (simp add: assms f64_of_u64_def f64_round_0)
  then have "u64_of_f64 unrep (f64_mul (f64_of_u64 (maxRPS r))
               (f64_div (f64_of_i64 (now - lastRefill r)) (Fin 1000000000))) = 0"
    by (simp add: e f64_round_0 u64_of_f64_fraction)
  then show ?thesis by (simp add: calculateTokenRefill_unfold)
qed

section \<open>The claims\<close>

text \<open>
  Claim C1 (sequential exact consumption). A limiter built with \<open>maxRPS = 10\<close> and factor
  \<open>2.0\<close> has capacity 20. When 21 \<^verbatim>\<open>Allow\<close> calls follow with clock readings that all
  lie less than a tenth of a second (one token's time) after the construction instant,
  in any order, the first 20 return true, the bucket is then empty, and the 21st returns
  false and leaves the token count at 0.
\<close>

theorem C1_exact_consumption:
  assumes "length ts = 20"
    and "\<forall>t\<in>set (ts @ [t21]). sint t0 \<le> sint t \<and> sint t < sint t0 + 100000000"
  shows "map fst (run unrep (NewLimiter unrep 10 (Fin 2) t0) (map (Pair Call_Allow) (ts @ [t21])))
           = replicate 20 (Reply_bool True) @ [Reply_bool False]
       \<and> tokens (final unrep (NewLimiter unrep 10 (Fin 2) t0) (map (Pair Call_Allow) ts)) = 0
       \<and> tokens (final unrep (NewLimiter unrep 10 (Fin 2) t0) (map (Pair Call_Allow) (ts @ [t21]))) = 0"
proof -
  let ?r0 = "NewLimiter unrep 10 (Fin 2) t0"
  let ?cs = "map (Pair Call_Allow) ts"
  have r0: "?r0 = \<lparr>maxRPS = 10, capacity = 20, tokens = 20, lastRefill = t0\<rparr>"
    by (rule NewLimiter_10_2)
  have ts: "\<forall>t\<in>set ts. sint t0 \<le> sint t \<and> sint t < sint t0 + 100000000"
    and t21: "sint t0 \<le> sint t21" "sint t21 < sint t0 + 100000000"
    using assms(2) by simp_all
  have "map fst (run unrep ?r0 ?cs) = replicate (length ts) (Reply_bool True)
       \<and> tokens (final unrep ?r0 ?cs) = tokens ?r0 - of_nat (length ts)
       \<and> maxRPS (final unrep ?r0 ?cs) = maxRPS ?r0
       \<and> capacity (final unrep ?r0 ?cs) = capacity ?r0
       \<and> sint t0 \<le> sint (lastRefill (final unrep ?r0 ?cs))
       \<and> sint (lastRefill (final unrep ?r0 ?cs)) < sint t0 + 100000000"
    using ts assms(1) by (intro run_Allow_window) (simp_all add: r0)
  then have first: "map fst (run unrep ?r0 ?cs) = replicate 20 (Reply_bool True)"
    and f: "tokens (final unrep ?r0 ?cs) = 0" "maxRPS (final unrep ?r0 ?cs) = 10"
      "sint t0 \<le> sint (lastRefill (final unrep ?r0 ?cs))"
      "sint (lastRefill (final unrep ?r0 ?cs)) < sint t0 + 100000000"
    by (simp_all add: assms(1) r0)
  let ?r = "final unrep ?r0 ?cs"
  have "calculateTokenRefill unrep ?r t21 =
          ?r\<lparr>lastRefill := (if sint (lastRefill ?r) < sint t21 then t21 else lastRefill ?r)\<rparr>"
    using f(3,4) t21 by (intro refill_window [where W = 100000000 and lo = "sint t0"]) (simp_all add: f(2))
  then have last: "Allow unrep ?r t21
      = (False, ?r\<lparr>lastRefill := (if sint (lastRefill ?r) < sint t21 then t21 else lastRefill ?r)\<rparr>)"
    by (simp add: Allow_unfold f)
  show ?thesis
    by (simp add: run_append final_append first last f)
qed

theorem C1_exact_consumption_witness:
  "map fst (run (\<lambda>_. 0) (NewLimiter (\<lambda>_. 0) 10 (Fin 2) 1000)
         (map (Pair Call_Allow) (replicate 20 1000 @ [99999999])))
     = replicate 20 (Reply_bool True) @ [Reply_bool False]
   \<and> tokens (final (\<lambda>_. 0) (NewLimiter (\<lambda>_. 0) 10 (Fin 2) 1000)
         (map (Pair Call_Allow) (replicate 20 1000 @ [99999999]))) = 0"
  using C1_exact_consumption [of "replicate 20 1000" 99999999 1000 "\<lambda>_. 0"]
  by simp

text \<open>
  Claim C2 (bounded tokens). Along every sequence of \<^verbatim>\<open>Allow\<close>, \<^verbatim>\<open>TryAllow\<close> and
  \<^verbatim>\<open>Available\<close> calls on a freshly constructed limiter, with any clock readings, the
  token count after each call is between 0 and the capacity, which stays the constructed
  one. A refill either leaves the count as it is or stores a value clamped at the
  capacity, and a successful \<^verbatim>\<open>Allow\<close> or \<^verbatim>\<open>TryAllow\<close> lowers the refilled count by exactly
  1 or \<open>n\<close> as integers: the subtraction never wraps below zero.
\<close>

theorem C2_bounded_tokens:
  "(\<forall>(y, r') \<in> set (run unrep (NewLimiter unrep m cf t0) cs).
       0 \<le> uint (tokens r') \<and> tokens r' \<le> capacity r'
       \<and> capacity r' = capacity (NewLimiter unrep m cf t0))
   \<and> tokens (NewLimiter unrep m cf t0) \<le> capacity (NewLimiter unrep m cf t0)
   \<and> (tokens (calculateTokenRefill unrep r now) = tokens r
        \<or> tokens (calculateTokenRefill unrep r now) \<le> capacity r)
   \<and> (maxRPS r \<noteq> 0 \<and> fst (Allow unrep r now) \<longrightarrow>
        uint (tokens (snd (Allow unrep r now)))
          = uint (tokens (calculateTokenRefill unrep r now)) - 1)
   \<and> (maxRPS r \<noteq> 0 \<and> n \<noteq> 0 \<and> fst (TryAllow unrep r now n) \<longrightarrow>
        uint (tokens (snd (TryAllow unrep r now n)))
          = uint (tokens (calculateTokenRefill unrep r now)) - uint n)"
proof (intro conjI)
  show "\<forall>(y, r') \<in> set (run unrep (NewLimiter unrep m cf t0) cs).
       0 \<le> uint (tokens r') \<and> tokens r' \<le> capacity r'
       \<and> capacity r' = capacity (NewLimiter unrep m cf t0)"
    using run_invariant [where r = "NewLimiter unrep m cf t0" and unrep = unrep and cs = cs,
        OF NewLimiter_bounded]
    by auto
  show "tokens (NewLimiter unrep m cf t0) \<le> capacity (NewLimiter unrep m cf t0)"
    by (rule NewLimiter_bounded)
  show "tokens (calculateTokenRefill unrep r now) = tokens r
        \<or> tokens (calculateTokenRefill unrep r now) \<le> capacity r"
    by (rule refill_tokens_cases)
  show "maxRPS r \<noteq> 0 \<and> fst (Allow unrep r now) \<longrightarrow>
        uint (tokens (snd (Allow unrep r now)))
          = uint (tokens (calculateTokenRefill unrep r now)) - 1"
    by (simp add: Allow_unfold uint_pred)
  show "maxRPS r \<noteq> 0 \<and> n \<noteq> 0 \<and> fst (TryAllow unrep r now n) \<longrightarrow>
        uint (tokens (snd (TryAllow unrep r now n)))
          = uint (tokens (calculateTokenRefill unrep r now)) - uint n"
    by (simp add: TryAllow_unfold uint_diff)
qed

theorem C2_bounded_tokens_witness:
  "tokens (snd (step (\<lambda>_. 0) (NewLimiter (\<lambda>_. 0) 10 (Fin 2) 0) (Call_TryAllow 15, 0)))
     \<le> capacity (snd (step (\<lambda>_. 0) (NewLimiter (\<lambda>_. 0) 10 (Fin 2) 0) (Call_TryAllow 15, 0)))
   \<and> capacity (snd (step (\<lambda>_. 0) (NewLimiter (\<lambda>_. 0) 10 (Fin 2) 0) (Call_TryAllow 15, 0))) = 20
   \<and> fst (TryAllow (\<lambda>_. 0) (NewLimiter (\<lambda>_. 0) 10 (Fin 2) 0) 0 15)
   \<and> uint (tokens (snd (TryAllow (\<lambda>_. 0) (NewLimiter (\<lambda>_. 0) 10 (Fin 2) 0) 0 15))) = 5"
proof -
  let ?r0 = "NewLimiter (\<lambda>_. 0) 10 (Fin 2) 0"
  have r0: "?r0 = \<lparr>maxRPS = 10, capacity = 20, tokens = 20, lastRefill = 0\<rparr>"
    by (rule NewLimiter_10_2)
  have idle: "calculateTokenRefill (\<lambda>_. 0) ?r0 0 = ?r0"
    by (rule refill_idle) (simp add: r0)
  have ta: "TryAllow (\<lambda>_. 0) ?r0 0 15 = (True, ?r0\<lparr>tokens := 5\<rparr>)"
    by (simp add: TryAllow_unfold idle) (simp add: r0)
  show ?thesis
    using C2_bounded_tokens [of "\<lambda>_. 0" 10 "Fin 2" 0 "[(Call_TryAllow 15, 0)]" ?r0 0 15]
    by (simp add: ta idle) (simp add: r0)
qed

text \<open>
  Claim C3 (bulk admission boundary). Take a limiter with \<open>maxRPS > 0\<close> whose token count
  is within its capacity, let \<open>a\<close> be the available count that \<^verbatim>\<open>Available\<close> reports, and
  let \<^verbatim>\<open>TryAllow\<close> follow at a clock reading at which its refill adds nothing to \<open>a\<close>.
  Then \<^verbatim>\<open>TryAllow(a)\<close> returns true and leaves 0 tokens; \<^verbatim>\<open>TryAllow(a + 1)\<close> returns false
  and leaves \<open>a\<close> tokens; and on any limiter with \<open>maxRPS > 0\<close>, \<^verbatim>\<open>TryAllow(n)\<close> with
  \<open>n\<close> above the capacity returns false and changes nothing, whatever the token count.
\<close>

theorem C3_bulk_admission_boundary:
  assumes "maxRPS r \<noteq> 0" and "tokens r \<le> capacity r"
    and "Available unrep r t = (a, r1)"
    and "tokens (calculateTokenRefill unrep r1 t') = a"
  shows "(fst (TryAllow unrep r1 t' a) \<and> tokens (snd (TryAllow unrep r1 t' a)) = 0)
       \<and> (uint n = uint a + 1 \<longrightarrow>
            \<not> fst (TryAllow unrep r1 t' n) \<and> tokens (snd (TryAllow unrep r1 t' n)) = a)
       \<and> (maxRPS r' \<noteq> 0 \<and> capacity r' < n' \<longrightarrow> TryAllow unrep r' t'' n' = (False, r'))"
proof -
  have r1: "r1 = calculateTokenRefill unrep r t" and a: "a = tokens r1"
    using assms(3) by (auto simp: Available_unfold)
  have m1: "maxRPS r1 \<noteq> 0" using assms(1) by (simp add: r1)
  have b1: "tokens r1 \<le> capacity r1"
    using refill_bounded [OF assms(2), of unrep t] by (simp add: r1)
  have exact: "fst (TryAllow unrep r1 t' a) \<and> tokens (snd (TryAllow unrep r1 t' a)) = 0"
    using m1 b1 assms(4) by (simp add: TryAllow_unfold a [symmetric] linorder_not_less [symmetric])
  have over: "\<not> fst (TryAllow unrep r1 t' n) \<and> tokens (snd (TryAllow unrep r1 t' n)) = a"
    if "uint n = uint a + 1"
  proof -
    have lt: "a < n" using that by (simp add: word_less_def)
    then have "n \<noteq> 0" by (auto simp: word_less_def)
    then show ?thesis using m1 lt assms(4) by (simp add: TryAllow_unfold a [symmetric])
  qed
  have static: "TryAllow unrep r' t'' n' = (False, r')" if "maxRPS r' \<noteq> 0" "capacity r' < n'"
  proof -
    have "n' \<noteq> 0" using that(2) by (auto simp: word_less_def)
    then show ?thesis using that by (simp add: TryAllow_unfold)
  qed
  from exact over static show ?thesis by blast
qed

theorem C3_bulk_admission_boundary_witness:
  "fst (TryAllow (\<lambda>_. 0) \<lparr>maxRPS = 10, capacity = 20, tokens = 20, lastRefill = 0\<rparr> 0 20)
   \<and> tokens (snd (TryAllow (\<lambda>_. 0) \<lparr>maxRPS = 10, capacity = 20, tokens = 20, lastRefill = 0\<rparr> 0 20)) = 0
   \<and> \<not> fst (TryAllow (\<lambda>_. 0) \<lparr>maxRPS = 10, capacity = 20, tokens = 20, lastRefill = 0\<rparr> 0 21)
   \<and> tokens (snd (TryAllow (\<lambda>_. 0) \<lparr>maxRPS = 10, capacity = 20, tokens = 20, lastRefill = 0\<rparr> 0 21)) = 20"
proof -
  let ?r = "\<lparr>maxRPS = 10, capacity = 20, tokens = 20, lastRefill = 0\<rparr> :: ATLimiter"
  have idle: "calculateTokenRefill (\<lambda>_. 0) ?r 0 = ?r" by (rule refill_idle) simp
  have av: "Available (\<lambda>_. 0) ?r 0 = (20, ?r)" by (simp add: Available_unfold idle)
  have q: "tokens (calculateTokenRefill (\<lambda>_. 0) ?r 0) = 20" by (simp add: idle)
  have m: "maxRPS ?r \<noteq> 0" and b: "tokens ?r \<le> capacity ?r" by simp_all
  from C3_bulk_admission_boundary [OF m b av q, of 21 ?r 21 0]
  show ?thesis by simp
qed

text \<open>
  Claim C4 (refill after elapsed time), as amended. On a limiter with \<open>maxRPS > 0\<close> and
  an empty bucket, \<^verbatim>\<open>Available\<close> called \<open>d > 0\<close> nanoseconds after the last refill returns
  the smaller of the capacity and \<^verbatim>\<open>uint64(float64(maxRPS) * (float64(d) / 1e9))\<close>; when
  exactly one second has elapsed and \<open>maxRPS \<le> 2^53\<close> that is \<open>min(capacity, maxRPS)\<close>.
\<close>

theorem C4_refill_from_empty:
  assumes "tokens r = 0" and "maxRPS r \<noteq> 0"
  shows "(0 < sint (now - lastRefill r) \<longrightarrow>
            fst (Available unrep r now)
              = min (capacity r)
                  (u64_of_f64 unrep (f64_mul (f64_of_u64 (maxRPS r))
                     (f64_div (f64_of_i64 (now - lastRefill r)) (Fin 1000000000)))))
       \<and> (sint (now - lastRefill r) = 1000000000 \<and> uint (maxRPS r) \<le> 2 ^ 53 \<longrightarrow>
            fst (Available unrep r now) = min (capacity r) (maxRPS r))"
proof -
  let ?k = "u64_of_f64 unrep (f64_mul (f64_of_u64 (maxRPS r))
              (f64_div (f64_of_i64 (now - lastRefill r)) (Fin 1000000000)))"
  have gen: "fst (Available unrep r now) = min (capacity r) ?k" if "0 < sint (now - lastRefill r)"
  proof (cases "0 < ?k")
    case True
    then show ?thesis using that assms(1)
      by (simp add: Available_unfold calculateTokenRefill_unfold Let_def min.commute)
  next
    case False
    then have "?k = 0" by (simp add: word_gt_0)
    then show ?thesis using that assms(1)
      by (simp add: Available_unfold calculateTokenRefill_unfold Let_def)
  qed
  have one: "fst (Available unrep r now) = min (capacity r) (maxRPS r)"
    if "sint (now - lastRefill r) = 1000000000" "uint (maxRPS r) \<le> 2 ^ 53"
  proof -
    have "?k = maxRPS r" using that by (rule newTokens_one_second)
    moreover have "0 < sint (now - lastRefill r)" using that(1) by simp
    ultimately show ?thesis using gen by simp
  qed
  from gen one show ?thesis by blast
qed

theorem C4_refill_from_empty_witness:
  "fst (Available (\<lambda>_. 0) \<lparr>maxRPS = 10, capacity = 20, tokens = 0, lastRefill = 500\<rparr> 1000000500) = 10"
proof -
  let ?r = "\<lparr>maxRPS = 10, capacity = 20, tokens = 0, lastRefill = 500\<rparr> :: ATLimiter"
  have "tokens ?r = 0" and "maxRPS ?r \<noteq> 0" by simp_all
  from C4_refill_from_empty [OF this, of 1000000500 "\<lambda>_. 0"]
  have "sint (1000000500 - lastRefill ?r) = 1000000000 \<and> uint (maxRPS ?r) \<le> 2 ^ 53
        \<longrightarrow> fst (Available (\<lambda>_. 0) ?r 1000000500) = min (capacity ?r) (maxRPS ?r)"
    by (rule conjunct2)
  then show ?thesis by simp
qed

text \<open>
  The claim as stated fails: the limiter of C1, drained by 20 \<^verbatim>\<open>Allow\<close> calls, reports 20
  tokens (not \<open>min(capacity, maxRPS) = 10\<close>) when two seconds have elapsed.
\<close>

theorem C4_counterexample:
  "tokens (final (\<lambda>_. 0) (NewLimiter (\<lambda>_. 0) 10 (Fin 2) 0) (replicate 20 (Call_Allow, 0))) = 0
   \<and> maxRPS (final (\<lambda>_. 0) (NewLimiter (\<lambda>_. 0) 10 (Fin 2) 0) (replicate 20 (Call_Allow, 0))) = 10
   \<and> capacity (final (\<lambda>_. 0) (NewLimiter (\<lambda>_. 0) 10 (Fin 2) 0) (replicate 20 (Call_Allow, 0))) = 20
   \<and> sint (2000000000 - lastRefill (final (\<lambda>_. 0) (NewLimiter (\<lambda>_. 0) 10 (Fin 2) 0)
         (replicate 20 (Call_Allow, 0)))) = 2000000000
   \<and> fst (Available (\<lambda>_. 0)
         (final (\<lambda>_. 0) (NewLimiter (\<lambda>_. 0) 10 (Fin 2) 0) (replicate 20 (Call_Allow, 0)))
         2000000000) = 20
   \<and> fst (Available (\<lambda>_. 0)
         (final (\<lambda>_. 0) (NewLimiter (\<lambda>_. 0) 10 (Fin 2) 0) (replicate 20 (Call_Allow, 0)))
         2000000000)
       \<noteq> min (capacity (final (\<lambda>_. 0) (NewLimiter (\<lambda>_. 0) 10 (Fin 2) 0) (replicate 20 (Call_Allow, 0))))
               (maxRPS (final (\<lambda>_. 0) (NewLimiter (\<lambda>_. 0) 10 (Fin 2) 0) (replicate 20 (Call_Allow, 0))))"
proof -
  let ?r0 = "NewLimiter (\<lambda>_. 0) 10 (Fin 2) 0"
  have r0: "?r0 = \<lparr>maxRPS = 10, capacity = 20, tokens = 20, lastRefill = 0\<rparr>"
    by (rule NewLimiter_10_2)
  have fin: "final (\<lambda>_. 0) ?r0 (replicate 20 (Call_Allow, 0))
      = \<lparr>maxRPS = 10, capacity = 20, tokens = 0, lastRefill = 0\<rparr>"
    unfolding r0 by (subst final_Allow_idle) simp_all
  have nt: "u64_of_f64 (\<lambda>_. 0) (f64_mul (f64_of_u64 10) (f64_div (f64_of_i64 2000000000) (Fin 1000000000))) = 20"
    by (simp add: f64_of_i64_def f64_of_u64_def f64_round_numeral u64_of_f64_def trunc_def)
  show ?thesis
    unfolding fin by (simp add: Available_unfold calculateTokenRefill_unfold nt)
qed

text \<open>
  Claim C5 (capacity derivation), as amended. \<^verbatim>\<open>NewLimiter\<close> and \<^verbatim>\<open>SetMaxRPS\<close> clamp the
  factor up to 1.0 when it is below 1.0 and set the capacity to
  \<^verbatim>\<open>max(uint64(float64(maxRPS) * capacityFactor), 1, maxRPS)\<close>, the product being the
  float64 one: \<open>maxRPS\<close> rounded to binary64, the product rounded again, the fraction
  dropped. The capacity is always at least 1 and at least \<open>maxRPS\<close>. It is the
  specification's exact \<open>max(maxRate * capacityFactor, 1, maxRate)\<close> whenever
  \<open>maxRPS \<le> 2^53\<close> and the exact product with the clamped factor is itself a binary64
  value (\<open>k * 2^j\<close> with \<open>k \<le> 2^53\<close>) below \<open>2^64\<close>; so \<open>maxRPS = 100\<close> gives 150 with
  factor \<open>1.5\<close> and 100 with factor \<open>0.2\<close>.
\<close>

theorem C5_capacity_derivation:
  "capacity (NewLimiter unrep m cf t0)
     = max (max (u64_of_f64 unrep (f64_mul (f64_of_u64 m)
                   (if f64_lt cf (Fin 1) then Fin 1 else cf))) 1) m
   \<and> capacity (SetMaxRPS unrep r m cf) = capacity (NewLimiter unrep m cf t0)
   \<and> 1 \<le> capacity (NewLimiter unrep m cf t0)
   \<and> m \<le> capacity (NewLimiter unrep m cf t0)
   \<and> (uint m \<le> 2 ^ 53
        \<and> of_int (uint m) * (if f < 1 then 1 else f) = of_int k * pow2 j
        \<and> 0 \<le> k \<and> k \<le> 2 ^ 53 \<and> - 1074 \<le> j \<and> of_int k * pow2 j < 2 ^ 64
        \<longrightarrow> uint (capacity (NewLimiter unrep m (Fin f) t0)) = spec_capacity (uint m) f
          \<and> uint (capacity (SetMaxRPS unrep r m (Fin f))) = spec_capacity (uint m) f)
   \<and> capacity (NewLimiter unrep 100 (Fin (3 / 2)) t0) = 150
   \<and> capacity (NewLimiter unrep 100 (f64_round (1 / 5)) t0) = 100
   \<and> capacity (SetMaxRPS unrep r 100 (Fin (3 / 2))) = 150
   \<and> capacity (SetMaxRPS unrep r 100 (f64_round (1 / 5))) = 100"
proof (intro conjI impI)
  show "capacity (NewLimiter unrep m cf t0)
     = max (max (u64_of_f64 unrep (f64_mul (f64_of_u64 m)
                   (if f64_lt cf (Fin 1) then Fin 1 else cf))) 1) m"
    by (rule NewLimiter_fields(4))
  show same: "capacity (SetMaxRPS unrep r m cf) = capacity (NewLimiter unrep m cf t0)" for cf
    by (simp only: NewLimiter_fields(4) SetMaxRPS_fields(2))
  show "1 \<le> capacity (NewLimiter unrep m cf t0)"
    by (simp add: NewLimiter_fields(4) le_max_iff_disj)
  show "m \<le> capacity (NewLimiter unrep m cf t0)"
    by (simp add: NewLimiter_fields(4))
  show "capacity (NewLimiter unrep 100 (Fin (3 / 2)) t0) = 150"
    by (simp add: NewLimiter_fields f64_of_u64_def f64_round_numeral u64_of_f64_def trunc_def)
  show "capacity (NewLimiter unrep 100 (f64_round (1 / 5)) t0) = 100"
    by (simp add: NewLimiter_fields f64_round_fifth f64_of_u64_def f64_round_numeral
        u64_of_f64_def trunc_def)
  show "capacity (SetMaxRPS unrep r 100 (Fin (3 / 2))) = 150"
    by (simp add: SetMaxRPS_fields f64_of_u64_def f64_round_numeral u64_of_f64_def trunc_def)
  show "capacity (SetMaxRPS unrep r 100 (f64_round (1 / 5))) = 100"
    by (simp add: SetMaxRPS_fields f64_round_fifth f64_of_u64_def f64_round_numeral
        u64_of_f64_def trunc_def)
next
  assume h: "uint m \<le> 2 ^ 53
        \<and> of_int (uint m) * (if f < 1 then 1 else f) = of_int k * pow2 j
        \<and> 0 \<le> k \<and> k \<le> 2 ^ 53 \<and> - 1074 \<le> j \<and> of_int k * pow2 j < 2 ^ 64"
  define g where "g = (if f < 1 then 1 else f)"
  have cl: "(if f64_lt (Fin f) (Fin 1) then Fin 1 else Fin f) = Fin g"
    by (simp add: g_def)
  have hm: "uint m \<le> 2 ^ 53" and hp: "of_int (uint m) * g = of_int k * pow2 j"
    and hk: "0 \<le> k" "k \<le> 2 ^ 53" and hj: "- 1074 \<le> j" and hl: "of_int k * pow2 j < 2 ^ 64"
    using h by (simp_all only: g_def)
  note ex = capacity_product_exact(1) [OF hm hp hk hj hl, of unrep]
    capacity_product_exact(2) [OF hm hp hk hj hl]
  have "capacity (NewLimiter unrep m (Fin f) t0)
          = max (max (word_of_int \<lfloor>of_int (uint m) * g\<rfloor>) 1) m"
    by (simp only: NewLimiter_fields(4) cl ex(1))
  then have "uint (capacity (NewLimiter unrep m (Fin f) t0))
          = max (max \<lfloor>of_int (uint m) * g\<rfloor> 1) (uint m)"
    by (simp only: uint_max ex(2) uint_1)
  then show new: "uint (capacity (NewLimiter unrep m (Fin f) t0)) = spec_capacity (uint m) f"
    by (simp only: spec_capacity_max g_def)
  have "capacity (SetMaxRPS unrep r m (Fin f)) = capacity (NewLimiter unrep m (Fin f) t0)"
    by (simp only: NewLimiter_fields(4) SetMaxRPS_fields(2))
  then show "uint (capacity (SetMaxRPS unrep r m (Fin f))) = spec_capacity (uint m) f"
    by (simp only: new)
qed

theorem C5_capacity_derivation_witness:
  "uint (capacity (NewLimiter (\<lambda>_. 0) 100 (Fin (3 / 2)) 0)) = spec_capacity 100 (3 / 2)
   \<and> uint (capacity (SetMaxRPS (\<lambda>_. 0) \<lparr>maxRPS = 10, capacity = 20, tokens = 20, lastRefill = 0\<rparr>
                100 (Fin (3 / 2)))) = spec_capacity 100 (3 / 2)
   \<and> spec_capacity 100 (3 / 2) = 150"
proof -
  have h: "uint (100 :: uint64) \<le> 2 ^ 53
        \<and> of_int (uint (100 :: uint64)) * (if (3 / 2 :: rat) < 1 then 1 else 3 / 2) = of_int 150 * pow2 0
        \<and> (0 :: int) \<le> 150 \<and> (150 :: int) \<le> 2 ^ 53 \<and> - 1074 \<le> (0 :: int)
        \<and> of_int 150 * pow2 0 < 2 ^ 64"
    by simp
  have s: "spec_capacity 100 (3 / 2) = 150" by (simp add: spec_capacity_def)
  from C5_capacity_derivation
    [where m = 100 and f = "3 / 2" and k = 150 and j = 0 and unrep = "\<lambda>_. 0"
       and r = "\<lparr>maxRPS = 10, capacity = 20, tokens = 20, lastRefill = 0\<rparr>"]
  have "uint (100 :: uint64) \<le> 2 ^ 53
        \<and> of_int (uint (100 :: uint64)) * (if (3 / 2 :: rat) < 1 then 1 else 3 / 2) = of_int 150 * pow2 0
        \<and> (0 :: int) \<le> 150 \<and> (150 :: int) \<le> 2 ^ 53 \<and> - 1074 \<le> (0 :: int)
        \<and> of_int 150 * pow2 0 < 2 ^ 64
        \<longrightarrow> uint (capacity (NewLimiter (\<lambda>_. 0) 100 (Fin (3 / 2)) 0)) = spec_capacity (uint (100 :: uint64)) (3 / 2)
          \<and> uint (capacity (SetMaxRPS (\<lambda>_. 0) \<lparr>maxRPS = 10, capacity = 20, tokens = 20, lastRefill = 0\<rparr>
                100 (Fin (3 / 2)))) = spec_capacity (uint (100 :: uint64)) (3 / 2)"
    by blast
  with h have "uint (capacity (NewLimiter (\<lambda>_. 0) 100 (Fin (3 / 2)) 0)) = spec_capacity (uint (100 :: uint64)) (3 / 2)
          \<and> uint (capacity (SetMaxRPS (\<lambda>_. 0) \<lparr>maxRPS = 10, capacity = 20, tokens = 20, lastRefill = 0\<rparr>
                100 (Fin (3 / 2)))) = spec_capacity (uint (100 :: uint64)) (3 / 2)"
    by (rule rev_mp)
  then show ?thesis using s by simp
qed

text \<open>
  The claim as stated fails, read over numbers: with \<open>maxRPS = 2^53 + 3\<close> and factor 1.0
  the exact rule gives \<open>2^53 + 3\<close>, while \<^verbatim>\<open>float64(maxRPS)\<close> rounds to \<open>2^53 + 4\<close> and the
  constructed capacity is \<open>2^53 + 4\<close>.
\<close>

theorem C5_counterexample:
  "uint (capacity (NewLimiter (\<lambda>_. 0) 9007199254740995 (Fin 1) 0)) = 9007199254740996
   \<and> spec_capacity (uint (9007199254740995 :: uint64)) 1 = 9007199254740995
   \<and> uint (capacity (NewLimiter (\<lambda>_. 0) 9007199254740995 (Fin 1) 0))
       \<noteq> spec_capacity (uint (9007199254740995 :: uint64)) 1"
proof -
  have c: "capacity (NewLimiter (\<lambda>_. 0) 9007199254740995 (Fin 1) 0) = 9007199254740996"
    by (simp add: NewLimiter_fields f64_of_u64_def f64_round_above_2_53
        f64_round_even_above_2_53 u64_of_f64_def trunc_def)
  have s: "spec_capacity (uint (9007199254740995 :: uint64)) 1 = 9007199254740995"
    by (simp add: spec_capacity_def)
  show ?thesis unfolding c s by simp
qed

text \<open>
  Claim C6 (sub-token quantization). When a refill step runs \<open>d\<close> nanoseconds after the
  last refill instant with \<open>0 < d\<close> and \<open>d / 10^9 < 1 / maxRPS\<close> (that is,
  \<open>d * maxRPS < 10^9\<close>), the token count is unchanged and the refill instant moves to
  the current reading. The time is discarded: a second such step leaves the tokens
  unchanged again, even when both steps together span more than one token's time.
\<close>

theorem C6_sub_token_quantization:
  assumes "0 < sint (now - lastRefill r)"
    and "sint (now - lastRefill r) * uint (maxRPS r) < 1000000000"
  shows "calculateTokenRefill unrep r now = r\<lparr>lastRefill := now\<rparr>
       \<and> tokens (calculateTokenRefill unrep r now) = tokens r
       \<and> lastRefill (calculateTokenRefill unrep r now) = now
       \<and> (0 < sint (now' - now) \<and> sint (now' - now) * uint (maxRPS r) < 1000000000 \<longrightarrow>
            calculateTokenRefill unrep (calculateTokenRefill unrep r now) now'
              = r\<lparr>lastRefill := now'\<rparr>)"
proof -
  have one: "calculateTokenRefill unrep r now = r\<lparr>lastRefill := now\<rparr>"
    using assms(1) newTokens_zero [OF assms] by (simp add: calculateTokenRefill_unfold)
  have two: "calculateTokenRefill unrep (r\<lparr>lastRefill := now\<rparr>) now' = r\<lparr>lastRefill := now'\<rparr>"
    if "0 < sint (now' - now)" "sint (now' - now) * uint (maxRPS r) < 1000000000"
    using that newTokens_zero [of "now' - now" "maxRPS r" unrep]
    by (simp add: calculateTokenRefill_unfold)
  from one two show ?thesis by simp
qed

theorem C6_sub_token_quantization_witness:
  "calculateTokenRefill (\<lambda>_. 0) \<lparr>maxRPS = 10, capacity = 20, tokens = 5, lastRefill = 0\<rparr> 60000000
     = \<lparr>maxRPS = 10, capacity = 20, tokens = 5, lastRefill = 60000000\<rparr>
   \<and> calculateTokenRefill (\<lambda>_. 0)
       (calculateTokenRefill (\<lambda>_. 0) \<lparr>maxRPS = 10, capacity = 20, tokens = 5, lastRefill = 0\<rparr> 60000000)
       120000000
     = \<lparr>maxRPS = 10, capacity = 20, tokens = 5, lastRefill = 120000000\<rparr>"
proof -
  let ?r = "\<lparr>maxRPS = 10, capacity = 20, tokens = 5, lastRefill = 0\<rparr> :: ATLimiter"
  have h: "0 < sint (60000000 - lastRefill ?r)"
    "sint (60000000 - lastRefill ?r) * uint (maxRPS ?r) < 1000000000"
    by simp_all
  note inst = C6_sub_token_quantization [OF h, where now' = 120000000 and unrep = "\<lambda>_. 0"]
  from inst have a: "calculateTokenRefill (\<lambda>_. 0) ?r 60000000 = ?r\<lparr>lastRefill := 60000000\<rparr>"
    by (rule conjunct1)
  from inst have "0 < sint (120000000 - 60000000 :: int64)
      \<and> sint (120000000 - 60000000 :: int64) * uint (maxRPS ?r) < 1000000000
      \<longrightarrow> calculateTokenRefill (\<lambda>_. 0) (calculateTokenRefill (\<lambda>_. 0) ?r 60000000) 120000000
            = ?r\<lparr>lastRefill := 120000000\<rparr>"
    by blast
  then have b: "calculateTokenRefill (\<lambda>_. 0) (calculateTokenRefill (\<lambda>_. 0) ?r 60000000) 120000000
            = ?r\<lparr>lastRefill := 120000000\<rparr>"
    by simp
  show ?thesis unfolding b unfolding a by simp
qed

text \<open>
  Claim C7 (unlimited mode). On a limiter constructed with \<open>maxRPS = 0\<close>, every \<^verbatim>\<open>Allow\<close>
  call of every sequence, at every clock reading, returns true and leaves the limiter
  exactly as it was (no refill, no change of the token count); the same holds for an
  \<^verbatim>\<open>Allow\<close> issued after any sequence of \<^verbatim>\<open>Allow\<close>, \<^verbatim>\<open>TryAllow\<close> and \<^verbatim>\<open>Available\<close> calls.
\<close>

theorem C7_unlimited_mode:
  "run unrep (NewLimiter unrep 0 cf t0) (map (Pair Call_Allow) ts)
     = map (\<lambda>t. (Reply_bool True, NewLimiter unrep 0 cf t0)) ts
   \<and> (\<forall>(y, r') \<in> set (run unrep (NewLimiter unrep 0 cf t0) cs).
         maxRPS r' = 0 \<and> Allow unrep r' now = (True, r'))"
proof
  show "run unrep (NewLimiter unrep 0 cf t0) (map (Pair Call_Allow) ts)
     = map (\<lambda>t. (Reply_bool True, NewLimiter unrep 0 cf t0)) ts"
    by (rule run_unlimited) (simp add: NewLimiter_fields)
  have "\<forall>(y, r') \<in> set (run unrep (NewLimiter unrep 0 cf t0) cs).
      tokens r' \<le> capacity r' \<and> capacity r' = capacity (NewLimiter unrep 0 cf t0)
      \<and> maxRPS r' = maxRPS (NewLimiter unrep 0 cf t0)"
    by (rule run_invariant) (rule NewLimiter_bounded)
  then show "\<forall>(y, r') \<in> set (run unrep (NewLimiter unrep 0 cf t0) cs).
         maxRPS r' = 0 \<and> Allow unrep r' now = (True, r')"
    by (auto simp: NewLimiter_fields Allow_unfold)
qed

theorem C7_unlimited_mode_witness:
  "run (\<lambda>_. 0) (NewLimiter (\<lambda>_. 0) 0 (Fin 1) 0) (map (Pair Call_Allow) [5, 3000000000])
     = [(Reply_bool True, NewLimiter (\<lambda>_. 0) 0 (Fin 1) 0), (Reply_bool True, NewLimiter (\<lambda>_. 0) 0 (Fin 1) 0)]
   \<and> Allow (\<lambda>_. 0) (snd (step (\<lambda>_. 0) (NewLimiter (\<lambda>_. 0) 0 (Fin 1) 0) (Call_Available, 7))) 9
     = (True, snd (step (\<lambda>_. 0) (NewLimiter (\<lambda>_. 0) 0 (Fin 1) 0) (Call_Available, 7)))"
proof -
  let ?r0 = "NewLimiter (\<lambda>_. 0) 0 (Fin 1) 0"
  from C7_unlimited_mode [of "\<lambda>_. 0" "Fin 1" 0 "[5, 3000000000]" "[(Call_Available, 7)]" 9]
  have a: "run (\<lambda>_. 0) ?r0 (map (Pair Call_Allow) [5, 3000000000])
             = map (\<lambda>t. (Reply_bool True, ?r0)) [5, 3000000000 :: int64]"
    and b: "\<forall>(y, r') \<in> set (run (\<lambda>_. 0) ?r0 [(Call_Available, 7)]).
              maxRPS r' = 0 \<and> Allow (\<lambda>_. 0) r' 9 = (True, r')"
    by blast+
  from b have "Allow (\<lambda>_. 0) (snd (step (\<lambda>_. 0) ?r0 (Call_Available, 7))) 9
                 = (True, snd (step (\<lambda>_. 0) ?r0 (Call_Available, 7)))"
    by (simp add: case_prod_beta del: step.simps)
  with a show ?thesis by (simp del: step.simps run.simps)
qed

text \<open>
  Claim C8 (reconfiguration shrink). When \<^verbatim>\<open>SetMaxRPS\<close> runs with no other goroutine
  interleaved and the new capacity is below the token count, its compare-and-swap on the
  count it loaded succeeds: the token count becomes the new capacity, and a following
  \<^verbatim>\<open>Available\<close> call, at any clock reading, returns at most the new capacity.
\<close>

theorem C8_reconfiguration_shrink:
  "capacity (SetMaxRPS unrep r m cf) < tokens r \<longrightarrow>
     tokens (SetMaxRPS unrep r m cf) = capacity (SetMaxRPS unrep r m cf)
     \<and> SetMaxRPS unrep r m cf
         = snd (tokens_CompareAndSwap (r\<lparr>maxRPS := m, capacity := capacity (SetMaxRPS unrep r m cf)\<rparr>)
                 (tokens r) (capacity (SetMaxRPS unrep r m cf)))
     \<and> fst (Available unrep (SetMaxRPS unrep r m cf) now) \<le> capacity (SetMaxRPS unrep r m cf)"
proof
  assume lt: "capacity (SetMaxRPS unrep r m cf) < tokens r"
  let ?r' = "SetMaxRPS unrep r m cf"
  have tk: "tokens ?r' = capacity ?r'" using lt by (simp add: SetMaxRPS_fields(4))
  have cas: "?r' = snd (tokens_CompareAndSwap (r\<lparr>maxRPS := m, capacity := capacity ?r'\<rparr>)
                 (tokens r) (capacity ?r'))"
    using lt SetMaxRPS_unfold [OF SetMaxRPS_fields(2), of unrep r m cf r]
    by (simp add: tokens_CompareAndSwap_def)
  have "tokens (calculateTokenRefill unrep ?r' now) \<le> capacity ?r'"
    by (rule refill_bounded) (simp add: tk)
  then have av: "fst (Available unrep ?r' now) \<le> capacity ?r'"
    by (simp add: Available_unfold)
  from tk cas av show "tokens ?r' = capacity ?r' \<and> ?r' = snd (tokens_CompareAndSwap
      (r\<lparr>maxRPS := m, capacity := capacity ?r'\<rparr>) (tokens r) (capacity ?r'))
      \<and> fst (Available unrep ?r' now) \<le> capacity ?r'"
    by blast
qed

theorem C8_reconfiguration_shrink_witness:
  "capacity (SetMaxRPS (\<lambda>_. 0) \<lparr>maxRPS = 10, capacity = 20, tokens = 20, lastRefill = 0\<rparr> 5 (Fin 1)) = 5
   \<and> tokens (SetMaxRPS (\<lambda>_. 0) \<lparr>maxRPS = 10, capacity = 20, tokens = 20, lastRefill = 0\<rparr> 5 (Fin 1)) = 5
   \<and> fst (Available (\<lambda>_. 0)
        (SetMaxRPS (\<lambda>_. 0) \<lparr>maxRPS = 10, capacity = 20, tokens = 20, lastRefill = 0\<rparr> 5 (Fin 1))
        3000000000) \<le> 5"
proof -
  let ?r = "\<lparr>maxRPS = 10, capacity = 20, tokens = 20, lastRefill = 0\<rparr> :: ATLimiter"
  have c: "capacity (SetMaxRPS (\<lambda>_. 0) ?r 5 (Fin 1)) = 5"
    by (simp add: SetMaxRPS_fields f64_of_u64_def f64_round_numeral u64_of_f64_def trunc_def)
  have lt: "capacity (SetMaxRPS (\<lambda>_. 0) ?r 5 (Fin 1)) < tokens ?r" by (simp add: c)
  from C8_reconfiguration_shrink [of "\<lambda>_. 0" ?r 5 "Fin 1" 3000000000] lt
  have "tokens (SetMaxRPS (\<lambda>_. 0) ?r 5 (Fin 1)) = capacity (SetMaxRPS (\<lambda>_. 0) ?r 5 (Fin 1))"
    and "fst (Available (\<lambda>_. 0) (SetMaxRPS (\<lambda>_. 0) ?r 5 (Fin 1)) 3000000000)
           \<le> capacity (SetMaxRPS (\<lambda>_. 0) ?r 5 (Fin 1))"
    by blast+
  then show ?thesis by (simp add: c)
qed

text \<open>
  Claim C9 (atomic accesses only). The code does not meet it: \<^verbatim>\<open>GetCapacity\<close> reads
  \<^verbatim>\<open>capacity\<close> and \<^verbatim>\<open>Allow\<close> and \<^verbatim>\<open>TryAllow\<close> read \<^verbatim>\<open>maxRPS\<close> by plain field expressions,
  while \<^verbatim>\<open>SetMaxRPS\<close> stores both fields atomically; such a read and such a store, run
  concurrently, are a data race. The sibling \<^verbatim>\<open>GetMaxRPS\<close> loads atomically.
\<close>

theorem C9_plain_reads_race:
  "Plain_read Field_capacity \<in> set GetCapacity_accesses
   \<and> Plain_read Field_maxRPS \<in> set (Allow_accesses unrep r now)
   \<and> Plain_read Field_maxRPS \<in> set (TryAllow_accesses unrep r now n)
   \<and> Atomic_store Field_capacity \<in> set (SetMaxRPS_accesses unrep r' m cf)
   \<and> Atomic_store Field_maxRPS \<in> set (SetMaxRPS_accesses unrep r' m cf)
   \<and> data_race (Plain_read Field_capacity) (Atomic_store Field_capacity)
   \<and> data_race (Plain_read Field_maxRPS) (Atomic_store Field_maxRPS)
   \<and> GetMaxRPS_accesses = [Atomic_load Field_maxRPS]
   \<and> \<not> data_race (Atomic_load Field_maxRPS) (Atomic_store Field_maxRPS)"
  by (simp add: GetCapacity_accesses_def Allow_accesses_def TryAllow_accesses_def
      SetMaxRPS_accesses_def GetMaxRPS_accesses_def data_race_def)

text \<open>
  Claim C10 (unlimited mode, the other operations). On a limiter constructed with
  \<open>maxRPS = 0\<close>, \<^verbatim>\<open>TryAllow(n)\<close> returns true for every \<open>n\<close>, also above the capacity, and
  changes nothing. \<^verbatim>\<open>Available\<close> is not short-circuited: it runs the refill step, which
  moves the refill instant when time has passed but adds no token, and returns the
  stored count. With a finite capacity factor the capacity and the stored count are 1,
  so \<^verbatim>\<open>TryAllow(2)\<close> succeeds above the capacity and the first \<^verbatim>\<open>Available\<close> returns 1.
\<close>

theorem C10_unlimited_TryAllow_Available:
  "TryAllow unrep (NewLimiter unrep 0 cf t0) now n = (True, NewLimiter unrep 0 cf t0)
   \<and> Available unrep (NewLimiter unrep 0 cf t0) now
        = (tokens (NewLimiter unrep 0 cf t0),
           calculateTokenRefill unrep (NewLimiter unrep 0 cf t0) now)
   \<and> calculateTokenRefill unrep (NewLimiter unrep 0 cf t0) now
        = (if 0 < sint (now - t0) then (NewLimiter unrep 0 cf t0)\<lparr>lastRefill := now\<rparr>
           else NewLimiter unrep 0 cf t0)
   \<and> capacity (NewLimiter unrep 0 (Fin q) t0) = 1
   \<and> tokens (NewLimiter unrep 0 (Fin q) t0) = 1
   \<and> capacity (NewLimiter unrep 0 (Fin q) t0) < 2
   \<and> TryAllow unrep (NewLimiter unrep 0 (Fin q) t0) now 2 = (True, NewLimiter unrep 0 (Fin q) t0)
   \<and> fst (Available unrep (NewLimiter unrep 0 (Fin q) t0) now) = 1"
proof -
  have m: "maxRPS (NewLimiter unrep 0 cf t0) = 0" and l: "lastRefill (NewLimiter unrep 0 cf t0) = t0"
    for cf by (simp_all add: NewLimiter_fields)
  have ta: "TryAllow unrep (NewLimiter unrep 0 cf t0) now n = (True, NewLimiter unrep 0 cf t0)"
    for cf n by (simp add: TryAllow_unfold m)
  have rf: "calculateTokenRefill unrep (NewLimiter unrep 0 cf t0) now
        = (if 0 < sint (now - t0) then (NewLimiter unrep 0 cf t0)\<lparr>lastRefill := now\<rparr>
           else NewLimiter unrep 0 cf t0)" for cf
    using refill_unlimited [OF m, of unrep cf now] by (simp add: l)
  have av: "Available unrep (NewLimiter unrep 0 cf t0) now
        = (tokens (NewLimiter unrep 0 cf t0), calculateTokenRefill unrep (NewLimiter unrep 0 cf t0) now)"
    for cf by (simp add: Available_unfold) (simp add: rf)
  have z: "f64_of_u64 0 = Fin 0" by (simp add: f64_of_u64_def f64_round_0)
  have c: "capacity (NewLimiter unrep 0 (Fin q) t0) = 1"
    by (simp add: NewLimiter_fields z f64_round_0 u64_of_f64_fraction)
  have tk: "tokens (NewLimiter unrep 0 (Fin q) t0) = 1" by (simp add: NewLimiter_fields(2) c)
  have c2: "capacity (NewLimiter unrep 0 (Fin q) t0) < 2" by (simp add: c)
  have a1: "fst (Available unrep (NewLimiter unrep 0 (Fin q) t0) now) = 1"
    by (simp add: av tk)
  from ta [of cf n] av [of cf] rf [of cf] c tk c2 ta [of "Fin q" 2] a1 show ?thesis
    by (intro conjI)
qed

end
